theory Spec2Isabelle
  imports Main "HOL-Library.AList" "HOL-Library.Multiset"
begin

section \<open>GraphService: data model\<close>

text \<open>
  The module \<^verbatim>\<open>GraphService\<close> (src/src/GraphService.ts) keeps four caches from a lookup key
  to a promise, a queue of batched requests and a request counter. Promises are modelled by
  their identity (a number) and a heap giving the state of each promise; everything the
  network answers is an explicit argument.
\<close>

type_synonym key = string
type_synonym fut = nat

text \<open>A JavaScript \<^verbatim>\<open>Error\<close>: \<^verbatim>\<open>new Error(m)\<close> has the name \<^verbatim>\<open>"Error"\<close> and the message \<^verbatim>\<open>m\<close>.\<close>

record js_error =
  name :: string
  message :: string

definition Error :: "string \<Rightarrow> js_error" where
  "Error m = \<lparr>name = ''Error'', message = m\<rparr>"

text \<open>
  The error raised by reading a property of \<^verbatim>\<open>undefined\<close> and by calling a value that is
  not a function. The text of its message depends on the JavaScript engine; the code never
  reads it.
\<close>

definition TypeError :: js_error where
  "TypeError = \<lparr>name = ''TypeError'', message = ''undefined is not an object''\<rparr>"

text \<open>The state of a promise.\<close>

datatype 'a outcome = Pending | Fulfilled 'a | Rejected js_error

definition settled :: "js_error + 'a \<Rightarrow> 'a outcome" where
  "settled r = (case r of Inl e \<Rightarrow> Rejected e | Inr v \<Rightarrow> Fulfilled v)"

text \<open>
  A primitive value as it can stand in a field of a JSON payload that the code reads
  untyped (\<^verbatim>\<open>any\<close>). \<^verbatim>\<open>JUndefined\<close> is a field that is absent.
\<close>

datatype jsval = JUndefined | JNull | JBool bool | JNum int | JStr string

text \<open>
  Strict inequality \<^verbatim>\<open>a !== b\<close> of two primitive values: they differ in type or in value.
\<close>

definition strict_neq :: "jsval \<Rightarrow> jsval \<Rightarrow> bool" where
  "strict_neq a b = (a \<noteq> b)"

text \<open>
  A string-valued field of a payload is \<^verbatim>\<open>None\<close> when it is absent and \<^verbatim>\<open>Some s\<close> when it
  holds the string \<^verbatim>\<open>s\<close>. \<^verbatim>\<open>truthy\<close> is the test of \<^verbatim>\<open>if (x)\<close> on such a field: an absent
  field and the empty string are both false. \<^verbatim>\<open>key_of\<close> is the property key that
  \<^verbatim>\<open>obj[x]\<close> uses: \<^verbatim>\<open>undefined\<close> becomes the key \<^verbatim>\<open>"undefined"\<close>.
\<close>

definition truthy :: "string option \<Rightarrow> bool" where
  "truthy x = (case x of None \<Rightarrow> False | Some s \<Rightarrow> s \<noteq> [])"

definition key_of :: "string option \<Rightarrow> key" where
  "key_of x = (case x of None \<Rightarrow> ''undefined'' | Some s \<Rightarrow> s)"

text \<open>
  The JSON object of one directory entry as the service returns it, with the fields the
  code reads. \<^verbatim>\<open>d_error_message\<close> is \<^verbatim>\<open>data.error && data.error.message\<close>, present in the
  body of a failed batch item.
\<close>

record payload =
  d_id :: "string option"
  d_displayName :: "string option"
  d_jobTitle :: "string option"
  d_mail :: "string option"
  d_department :: "string option"
  d_officeLocation :: "string option"
  d_city :: "string option"
  d_businessPhones :: "string list option"
  d_imAddresses :: "string list option"
  d_companyName :: "string option"
  d_accountEnabled :: jsval
  d_error_message :: "string option"

record IPersonaProfile =
  profile_id :: "string option"
  displayName :: "string option"
  jobTitle :: "string option"
  department :: "string option"
  email :: "string option"
  officeLocation :: "string option"
  city :: "string option"
  businessPhone :: "string option"
  imAddress :: "string option"
  companyName :: "string option"

text \<open>
  \<^verbatim>\<open>(xs && xs.length) ? xs[0] : undefined\<close>
\<close>

definition first_or_undefined :: "string list option \<Rightarrow> string option" where
  "first_or_undefined xs = (case xs of None \<Rightarrow> None | Some [] \<Rightarrow> None | Some (x # _) \<Rightarrow> Some x)"

definition buildProfile :: "payload \<Rightarrow> IPersonaProfile" where
  "buildProfile data =
     \<lparr>profile_id = d_id data,
      displayName = d_displayName data,
      jobTitle = d_jobTitle data,
      department = d_department data,
      email = d_mail data,
      officeLocation = d_officeLocation data,
      city = d_city data,
      businessPhone = first_or_undefined (d_businessPhones data),
      imAddress = first_or_undefined (d_imAddresses data),
      companyName = d_companyName data\<rparr>"

subsection \<open>HTTP responses\<close>

text \<open>
  A \<^verbatim>\<open>Response\<close> of the Fetch API: its status, its status text, and what reading its body
  (\<^verbatim>\<open>response.json()\<close>, \<^verbatim>\<open>response.blob()\<close>) gives, which can fail. \<^verbatim>\<open>response.ok\<close> is true
  for a status from 200 to 299. For a photo the content is the object URL that
  \<^verbatim>\<open>URL.createObjectURL\<close> makes of the blob.
\<close>

record 'b response =
  status :: nat
  statusText :: string
  content :: "js_error + 'b"

definition ok :: "('b, 'm) response_scheme \<Rightarrow> bool" where
  "ok r = (200 \<le> status r \<and> status r \<le> 299)"

text \<open>
  What one direct request meets: the token cannot be acquired, \<^verbatim>\<open>fetch\<close> itself fails, or
  a response arrives.
\<close>

datatype 'b fetched = AuthFailed js_error | FetchFailed js_error | Fetched "'b response"

definition buildErrorFromResponse :: "('b, 'm) response_scheme \<Rightarrow> js_error" where
  "buildErrorFromResponse r =
     (let ex = Error (statusText r)
      in if status r = 404 then ex\<lparr>name := ''NotFound''\<rparr> else ex)"

text \<open>The decimal digits of a number, as the template \<^verbatim>\<open>`${n}`\<close> and \<^verbatim>\<open>Error(n)\<close> print it.\<close>

definition digit :: "nat \<Rightarrow> char" where
  "digit n = ''0123456789'' ! n"

function string_of_nat :: "nat \<Rightarrow> string" where
  "string_of_nat n =
     (if n < 10 then [digit n] else string_of_nat (n div 10) @ [digit (n mod 10)])"
  by pat_completeness auto
termination
  by (relation "measure id") auto

declare string_of_nat.simps [simp del]

text \<open>One entry of the response of the batch endpoint.\<close>

record BatchResponse =
  resp_id :: string
  resp_status :: nat
  resp_headers :: "(string \<times> string) list"
  resp_body :: "payload option"

subsection \<open>The four fetchers, from what the network answers to the result of the promise\<close>

text \<open>
  \<^verbatim>\<open>resolveProfileInternal\<close> after its \<^verbatim>\<open>await enqueueRequest(...)\<close>: a status below 400
  builds the profile (reading a field of an absent body raises a TypeError), any other
  status throws \<^verbatim>\<open>Error(message || status)\<close>.
\<close>

definition resolveProfileInternal_result :: "BatchResponse \<Rightarrow> js_error + IPersonaProfile" where
  "resolveProfileInternal_result response =
     (if resp_status response < 400 then
        (case resp_body response of None \<Rightarrow> Inl TypeError | Some data \<Rightarrow> Inr (buildProfile data))
      else
        (case resp_body response of
           None \<Rightarrow> Inl (Error (string_of_nat (resp_status response)))
         | Some data \<Rightarrow>
             if truthy (d_error_message data) then Inl (Error (the (d_error_message data)))
             else Inl (Error (string_of_nat (resp_status response)))))"

definition getManagerInternal_result :: "payload fetched \<Rightarrow> js_error + IPersonaProfile" where
  "getManagerInternal_result net =
     (case net of
        AuthFailed e \<Rightarrow> Inl e
      | FetchFailed e \<Rightarrow> Inl e
      | Fetched response \<Rightarrow>
          if ok response then
            (case content response of Inl e \<Rightarrow> Inl e | Inr data \<Rightarrow> Inr (buildProfile data))
          else Inl (buildErrorFromResponse response))"

definition getPhotoUrlInternal_result :: "string fetched \<Rightarrow> js_error + string" where
  "getPhotoUrlInternal_result net =
     (case net of
        AuthFailed e \<Rightarrow> Inl e
      | FetchFailed e \<Rightarrow> Inl e
      | Fetched response \<Rightarrow>
          if ok response then
            (case content response of Inl e \<Rightarrow> Inl e | Inr url \<Rightarrow> Inr url)
          else Inl (buildErrorFromResponse response))"

text \<open>The content of a direct-reports response is the array \<^verbatim>\<open>data.value\<close>.\<close>

definition getDirectsInternal_result :: "payload list fetched \<Rightarrow> js_error + IPersonaProfile list" where
  "getDirectsInternal_result net =
     (case net of
        AuthFailed e \<Rightarrow> Inl e
      | FetchFailed e \<Rightarrow> Inl e
      | Fetched response \<Rightarrow>
          if ok response then
            (case content response of
               Inl e \<Rightarrow> Inl e
             | Inr data_value \<Rightarrow>
                 Inr (map buildProfile
                        (filter (\<lambda>p. strict_neq (d_accountEnabled p) (JBool False)) data_value)))
          else Inl (buildErrorFromResponse response))"

section \<open>The state of the module\<close>

datatype cache_name = PhotosCache | ProfilesCache | ManagersCache | DirectsCache

datatype operation =
  ResolveProfileInternal | GetPhotoUrlInternal | GetManagerInternal | GetDirectsInternal

subsection \<open>An object used as a dictionary\<close>

text \<open>
  Each cache is an object literal \<^verbatim>\<open>{}\<close> that the code reads with \<^verbatim>\<open>cache[key]\<close> and writes with
  \<^verbatim>\<open>cache[key] = promise\<close>. Reading a key gives \<^verbatim>\<open>undefined\<close>, a promise that the code assigned,
  or a property that the object inherits. The inherited properties are functions, and under
  \<^verbatim>\<open>__proto__\<close> the prototype itself: none is a promise, and each is true in a test.
\<close>

datatype property = Undefined | Promise fut | Inherited

text \<open>
  The property names of \<^verbatim>\<open>Object.prototype\<close>, which every object literal inherits, and those
  of \<^verbatim>\<open>Promise.prototype\<close>.
\<close>

definition objectPrototype :: "key list" where
  "objectPrototype =
     [''constructor'', ''__defineGetter__'', ''__defineSetter__'', ''hasOwnProperty'',
      ''__lookupGetter__'', ''__lookupSetter__'', ''isPrototypeOf'', ''propertyIsEnumerable'',
      ''toString'', ''valueOf'', ''__proto__'', ''toLocaleString'']"

definition promisePrototype :: "key list" where
  "promisePrototype = [''constructor'', ''then'', ''catch'', ''finally'']"

text \<open>
  A cache is the map of the assignments made so far, read by \<^verbatim>\<open>getProperty\<close>. An assignment
  to the key \<^verbatim>\<open>__proto__\<close> does not add a property: it makes the promise the prototype of the
  cache. A later read of \<^verbatim>\<open>__proto__\<close> gives that promise back, which is what the entry of the
  map under \<^verbatim>\<open>__proto__\<close> stands for, and from then on the cache also inherits the properties
  of \<^verbatim>\<open>Promise.prototype\<close>.
\<close>

definition getProperty :: "(key \<rightharpoonup> fut) \<Rightarrow> key \<Rightarrow> property" where
  "getProperty obj k =
     (case obj k of
        Some f \<Rightarrow> Promise f
      | None \<Rightarrow>
          if k \<in> set objectPrototype \<or> (obj ''__proto__'' \<noteq> None \<and> k \<in> set promisePrototype)
          then Inherited else Undefined)"

subsection \<open>The variables of the module and the promises\<close>

text \<open>
  An entry of \<^verbatim>\<open>queue\<close>. The two callbacks \<^verbatim>\<open>onResolve\<close> and \<^verbatim>\<open>onReject\<close> are the resolvers of
  the promise that \<^verbatim>\<open>enqueueRequest\<close> created: \<^verbatim>\<open>req_promise\<close> names that promise.
\<close>

record pending_request =
  req_id :: string
  req_url :: string
  req_method :: string
  req_promise :: fut

text \<open>
  A batch between the moment \<^verbatim>\<open>processBatch\<close> took its snapshot and the moment the network
  answers: the local \<^verbatim>\<open>processingQueue\<close>, and the promise of the \<^verbatim>\<open>enqueueRequest\<close> call
  that is suspended in \<^verbatim>\<open>await processBatch()\<close>, when the flush came from the size threshold.
\<close>

record batch =
  processingQueue :: "(string \<times> pending_request) list"
  awaitedBy :: "fut option"

text \<open>
  The four caches, \<^verbatim>\<open>queue\<close> and \<^verbatim>\<open>lastRequestId\<close> are the variables of the module. The rest is
  the run-time state that the code relies on: the batches in flight; the state of every
  promise (one heap for each result type); the callbacks that \<^verbatim>\<open>cacheByIdOrEmail\<close> registered
  with \<^verbatim>\<open>then\<close> on a promise still pending (promise, target cache, value to store); the
  callbacks that it attached to a promise already fulfilled, which wait in the microtask
  queue; the promises of direct reports on which \<^verbatim>\<open>getDirects\<close> attached its seeding; which
  \<^verbatim>\<open>resolveProfileInternal\<close> call awaits which promise of the batcher; the calls of
  \<^verbatim>\<open>resolveProfileInternal\<close> that go on later than the batch that answered them (their promise
  and the result they will give it), and the promise of the \<^verbatim>\<open>enqueueRequest\<close> call that waits
  for the \<^verbatim>\<open>processBatch\<close> call now finishing; and the log of the fetchers started (promise
  returned, operation, key). \<^verbatim>\<open>queue\<close> only ever gets the decimal keys that the code makes, and
  is an association list in the order of \<^verbatim>\<open>Object.keys\<close>.

  The debounce timer \<^verbatim>\<open>batchTimer\<close> decides only when \<^verbatim>\<open>processBatch\<close> runs next. It is not
  part of the state: \<^verbatim>\<open>processBatch\<close> can be run at any moment (the event \<^verbatim>\<open>TimerFired\<close> below).
\<close>

record state =
  photosCache :: "key \<rightharpoonup> fut"
  profilesCache :: "key \<rightharpoonup> fut"
  managersCache :: "key \<rightharpoonup> fut"
  directsCache :: "key \<rightharpoonup> fut"
  queue :: "(string \<times> pending_request) list"
  lastRequestId :: nat
  inflight :: "batch list"
  profilePromises :: "fut \<Rightarrow> IPersonaProfile outcome"
  photoPromises :: "fut \<Rightarrow> string outcome"
  directsPromises :: "fut \<Rightarrow> IPersonaProfile list outcome"
  batchPromises :: "fut \<Rightarrow> BatchResponse outcome"
  nextPromise :: fut
  thens :: "(fut \<times> cache_name \<times> fut) list"
  microtasks :: "(fut \<times> cache_name \<times> fut) list"
  seeding :: "fut list"
  awaiting :: "fut \<rightharpoonup> fut"
  deferred :: "(fut \<times> (js_error + IPersonaProfile)) list"
  finishing :: "fut option"
  started :: "(fut \<times> operation \<times> key) list"

definition initial :: state where
  "initial =
     \<lparr>photosCache = Map.empty, profilesCache = Map.empty, managersCache = Map.empty,
      directsCache = Map.empty, queue = [], lastRequestId = 0, inflight = [],
      profilePromises = (\<lambda>_. Pending), photoPromises = (\<lambda>_. Pending),
      directsPromises = (\<lambda>_. Pending), batchPromises = (\<lambda>_. Pending),
      nextPromise = 0, thens = [], microtasks = [], seeding = [],
      awaiting = Map.empty, deferred = [], finishing = None, started = []\<rparr>"

definition cache :: "cache_name \<Rightarrow> state \<Rightarrow> (key \<rightharpoonup> fut)" where
  "cache c s =
     (case c of
        PhotosCache \<Rightarrow> photosCache s
      | ProfilesCache \<Rightarrow> profilesCache s
      | ManagersCache \<Rightarrow> managersCache s
      | DirectsCache \<Rightarrow> directsCache s)"

text \<open>\<^verbatim>\<open>cacheStorage[k] = value\<close>\<close>

definition store :: "cache_name \<Rightarrow> key \<Rightarrow> fut \<Rightarrow> state \<Rightarrow> state" where
  "store c k v s =
     (case c of
        PhotosCache \<Rightarrow> s\<lparr>photosCache := (photosCache s)(k \<mapsto> v)\<rparr>
      | ProfilesCache \<Rightarrow> s\<lparr>profilesCache := (profilesCache s)(k \<mapsto> v)\<rparr>
      | ManagersCache \<Rightarrow> s\<lparr>managersCache := (managersCache s)(k \<mapsto> v)\<rparr>
      | DirectsCache \<Rightarrow> s\<lparr>directsCache := (directsCache s)(k \<mapsto> v)\<rparr>)"

section \<open>Cross-indexing\<close>

text \<open>The callback that \<^verbatim>\<open>cacheByIdOrEmail\<close> passes to \<^verbatim>\<open>then\<close>.\<close>

definition cacheByIdOrEmail_then :: "IPersonaProfile \<Rightarrow> cache_name \<Rightarrow> fut \<Rightarrow> state \<Rightarrow> state" where
  "cacheByIdOrEmail_then profile cacheStorage v s =
     (let s1 = store cacheStorage (key_of (profile_id profile)) v s
      in if truthy (email profile) then store cacheStorage (key_of (email profile)) v s1 else s1)"

text \<open>
  \<^verbatim>\<open>profilePromise.then(callback).catch(() => {})\<close> on a promise of a profile. On a pending
  promise the callback is registered. On a promise already fulfilled the callback does not
  run now: it is put on the microtask queue and runs after the synchronous code that is
  running, which may be a caller that goes on to start other operations. On a rejected promise
  the \<^verbatim>\<open>catch\<close> does nothing.
\<close>

definition thenCatch :: "fut \<Rightarrow> cache_name \<Rightarrow> fut \<Rightarrow> state \<Rightarrow> state" where
  "thenCatch pp cacheStorage v s =
     (case profilePromises s pp of
        Pending \<Rightarrow> s\<lparr>thens := thens s @ [(pp, cacheStorage, v)]\<rparr>
      | Fulfilled profile \<Rightarrow> s\<lparr>microtasks := microtasks s @ [(pp, cacheStorage, v)]\<rparr>
      | Rejected e \<Rightarrow> s)"

text \<open>
  \<^verbatim>\<open>cacheByIdOrEmail(profilePromise, value, cacheStorage)\<close>. The first argument is what the
  caller read from a cache: \<^verbatim>\<open>undefined\<close> returns at once; an inherited property passes the test
  \<^verbatim>\<open>if (!profilePromise)\<close> and has no method \<^verbatim>\<open>then\<close>, so the call throws a TypeError.
\<close>

definition cacheByIdOrEmail :: "property \<Rightarrow> fut \<Rightarrow> cache_name \<Rightarrow> state \<Rightarrow> (js_error + unit) \<times> state" where
  "cacheByIdOrEmail profilePromise v cacheStorage s =
     (case profilePromise of
        Undefined \<Rightarrow> (Inr (), s)
      | Inherited \<Rightarrow> (Inl TypeError, s)
      | Promise pp \<Rightarrow> (Inr (), thenCatch pp cacheStorage v s))"

text \<open>
  One callback of the microtask queue runs: the promise it was attached to is fulfilled, and
  the callback stores under the id and the email of that profile.
\<close>

definition runCallback :: "fut \<times> cache_name \<times> fut \<Rightarrow> state \<Rightarrow> state" where
  "runCallback t s =
     (case profilePromises s (fst t) of
        Fulfilled profile \<Rightarrow> cacheByIdOrEmail_then profile (fst (snd t)) (snd (snd t)) s
      | _ \<Rightarrow> s)"

definition runMicrotask :: "state \<Rightarrow> state" where
  "runMicrotask s =
     (case microtasks s of
        [] \<Rightarrow> s
      | t # ts \<Rightarrow> runCallback t (s\<lparr>microtasks := ts\<rparr>))"

text \<open>
  A promise of a profile is resolved or rejected: a promise settles once, so nothing happens
  unless it is pending. The callbacks registered on it are its first reactions: they run in
  the order of registration before any code that waits for the promise (on rejection each
  \<^verbatim>\<open>catch\<close> does nothing).
\<close>

definition settleProfile :: "fut \<Rightarrow> js_error + IPersonaProfile \<Rightarrow> state \<Rightarrow> state" where
  "settleProfile f r s =
     (if profilePromises s f = Pending then
        let s1 = s\<lparr>profilePromises := (profilePromises s)(f := settled r),
                   thens := filter (\<lambda>t. fst t \<noteq> f) (thens s)\<rparr>
        in (case r of
              Inl e \<Rightarrow> s1
            | Inr profile \<Rightarrow>
                fold (\<lambda>t. cacheByIdOrEmail_then profile (fst (snd t)) (snd (snd t)))
                     (filter (\<lambda>t. fst t = f) (thens s)) s1)
      else s)"

definition settlePhoto :: "fut \<Rightarrow> js_error + string \<Rightarrow> state \<Rightarrow> state" where
  "settlePhoto f r s =
     (if photoPromises s f = Pending
      then s\<lparr>photoPromises := (photoPromises s)(f := settled r)\<rparr> else s)"

text \<open>
  The body of the loop in the \<^verbatim>\<open>then\<close> of \<^verbatim>\<open>getDirects\<close>:
  \<^verbatim>\<open>cacheByIdOrEmail(Promise.resolve(direct), Promise.resolve(direct), profilesCache)\<close>
  makes two new promises, both already fulfilled, so the callback goes to the microtask
  queue.
\<close>

definition seedDirect :: "IPersonaProfile \<Rightarrow> state \<Rightarrow> state" where
  "seedDirect direct s =
     (let a = nextPromise s; b = a + 1;
          s1 = s\<lparr>nextPromise := a + 2,
                  profilePromises := (profilePromises s)(a := Fulfilled direct, b := Fulfilled direct)\<rparr>
      in snd (cacheByIdOrEmail (Promise a) b ProfilesCache s1))"

text \<open>
  A promise of \<^verbatim>\<open>getDirectsInternal\<close> settles. When \<^verbatim>\<open>getDirects\<close> attached its \<^verbatim>\<open>then\<close> to it, a
  fulfilment seeds the profile cache with every direct report.
\<close>

definition settleDirects :: "fut \<Rightarrow> js_error + IPersonaProfile list \<Rightarrow> state \<Rightarrow> state" where
  "settleDirects f r s =
     (if directsPromises s f = Pending then
        let s1 = s\<lparr>directsPromises := (directsPromises s)(f := settled r)\<rparr>
        in (case r of
              Inl e \<Rightarrow> s1
            | Inr directs \<Rightarrow> if f \<in> set (seeding s) then fold seedDirect directs s1 else s1)
      else s)"

section \<open>The batcher\<close>

text \<open>
  The synchronous part of \<^verbatim>\<open>processBatch\<close>: nothing on an empty queue; otherwise the queue is
  taken as \<^verbatim>\<open>processingQueue\<close> and replaced by an empty one before anything is awaited.
\<close>

definition processBatch :: "fut option \<Rightarrow> state \<Rightarrow> state" where
  "processBatch caller s =
     (if length (queue s) = 0 then s
      else s\<lparr>queue := [],
              inflight := inflight s @ [\<lparr>processingQueue = queue s, awaitedBy = caller\<rparr>]\<rparr>)"

text \<open>The body \<^verbatim>\<open>{ requests }\<close> of the POST that a batch sends.\<close>

definition requests :: "(string \<times> pending_request) list \<Rightarrow> (string \<times> string \<times> string) list" where
  "requests pq = map (\<lambda>(i, req). (req_id req, req_method req, req_url req)) pq"

text \<open>
  \<^verbatim>\<open>enqueueRequest\<close> up to its first suspension: the request gets the next id and a new
  promise, and a queue of 20 entries is flushed at once.
\<close>

definition enqueueRequest :: "string \<Rightarrow> string \<Rightarrow> state \<Rightarrow> fut \<times> state" where
  "enqueueRequest relativeUrl method s =
     (let n = lastRequestId s + 1;
          p = nextPromise s;
          s1 = s\<lparr>lastRequestId := n,
                  nextPromise := p + 1,
                  batchPromises := (batchPromises s)(p := Pending),
                  queue := AList.update (string_of_nat n)
                             \<lparr>req_id = string_of_nat n, req_url = relativeUrl,
                              req_method = method, req_promise = p\<rparr> (queue s)\<rparr>
      in (p, if length (queue s1) \<ge> 20 then processBatch (Some p) s1 else s1))"

definition profileFields :: string where
  "profileFields = ''id,displayName,jobTitle,mail,department,officeLocation,city,businessPhones,imAddresses,companyName''"

text \<open>
  The four fetchers up to their first suspension: each returns a new pending promise.
  Only \<^verbatim>\<open>resolveProfileInternal\<close> goes through the batcher.
\<close>

definition resolveProfileInternal :: "key \<Rightarrow> state \<Rightarrow> fut \<times> state" where
  "resolveProfileInternal emailOrId s =
     (let f = nextPromise s;
          s1 = s\<lparr>nextPromise := f + 1,
                  profilePromises := (profilePromises s)(f := Pending),
                  started := started s @ [(f, ResolveProfileInternal, emailOrId)]\<rparr>;
          (p, s2) = enqueueRequest (''/users/'' @ emailOrId @ ''?$select='' @ profileFields) ''GET'' s1
      in (f, s2\<lparr>awaiting := (awaiting s2)(p \<mapsto> f)\<rparr>))"

definition getManagerInternal :: "key \<Rightarrow> state \<Rightarrow> fut \<times> state" where
  "getManagerInternal emailOrId s =
     (let f = nextPromise s
      in (f, s\<lparr>nextPromise := f + 1,
                profilePromises := (profilePromises s)(f := Pending),
                started := started s @ [(f, GetManagerInternal, emailOrId)]\<rparr>))"

definition getPhotoUrlInternal :: "key \<Rightarrow> state \<Rightarrow> fut \<times> state" where
  "getPhotoUrlInternal emailOrId s =
     (let f = nextPromise s
      in (f, s\<lparr>nextPromise := f + 1,
                photoPromises := (photoPromises s)(f := Pending),
                started := started s @ [(f, GetPhotoUrlInternal, emailOrId)]\<rparr>))"

definition getDirectsInternal :: "key \<Rightarrow> state \<Rightarrow> fut \<times> state" where
  "getDirectsInternal emailOrId s =
     (let f = nextPromise s
      in (f, s\<lparr>nextPromise := f + 1,
                directsPromises := (directsPromises s)(f := Pending),
                started := started s @ [(f, GetDirectsInternal, emailOrId)]\<rparr>))"

text \<open>
  A promise of the batcher settles and the \<^verbatim>\<open>resolveProfileInternal\<close> call that awaits it
  goes on: it returns the profile or throws. The call awaits \<^verbatim>\<open>enqueueRequest\<close>, which returns
  the promise of the batcher. For the request that flushed the queue, \<^verbatim>\<open>enqueueRequest\<close> is
  still suspended in \<^verbatim>\<open>await processBatch()\<close> when the batch settles the promise, and returns it
  only when \<^verbatim>\<open>processBatch\<close> has ended: that call of \<^verbatim>\<open>resolveProfileInternal\<close> goes on later, when
  code that waited for another request of the batch may already have run.
\<close>

definition resume :: "fut \<Rightarrow> js_error + BatchResponse \<Rightarrow> state \<Rightarrow> state" where
  "resume p r s =
     (case awaiting s p of
        None \<Rightarrow> s
      | Some f \<Rightarrow>
          (let result = (case r of Inl e \<Rightarrow> Inl e | Inr response \<Rightarrow> resolveProfileInternal_result response)
           in if finishing s = Some p then s\<lparr>deferred := deferred s @ [(f, result)]\<rparr>
              else settleProfile f result s))"

definition onResolve :: "fut \<Rightarrow> BatchResponse \<Rightarrow> state \<Rightarrow> state" where
  "onResolve p res s =
     (if batchPromises s p = Pending
      then resume p (Inr res) (s\<lparr>batchPromises := (batchPromises s)(p := Fulfilled res)\<rparr>)
      else s)"

definition onReject :: "fut \<Rightarrow> js_error \<Rightarrow> state \<Rightarrow> state" where
  "onReject p e s =
     (if batchPromises s p = Pending
      then resume p (Inl e) (s\<lparr>batchPromises := (batchPromises s)(p := Rejected e)\<rparr>)
      else s)"

text \<open>
  The loop of \<^verbatim>\<open>processResponse\<close>: \<^verbatim>\<open>processingQueue[res.id].onResolve(res)\<close> for each entry in
  turn. An id that is not in the snapshot reads \<^verbatim>\<open>onResolve\<close> of \<^verbatim>\<open>undefined\<close>, or of an inherited
  property, which has no \<^verbatim>\<open>onResolve\<close> to call: the loop stops there with a TypeError.
\<close>

fun dispatch :: "BatchResponse list \<Rightarrow> (string \<times> pending_request) list \<Rightarrow> state \<Rightarrow> (js_error + unit) \<times> state" where
  "dispatch [] pq s = (Inr (), s)"
| "dispatch (res # rest) pq s =
     (case map_of pq (resp_id res) of
        None \<Rightarrow> (Inl TypeError, s)
      | Some req \<Rightarrow> dispatch rest pq (onResolve (req_promise req) res s))"

text \<open>The content of the response of the batch endpoint is the array \<^verbatim>\<open>data.responses\<close>.\<close>

definition processResponse :: "BatchResponse list response \<Rightarrow> (string \<times> pending_request) list \<Rightarrow> state \<Rightarrow> (js_error + unit) \<times> state" where
  "processResponse response pq s =
     (if ok response then
        (case content response of
           Inl e \<Rightarrow> (Inl e, s)
         | Inr responses \<Rightarrow> dispatch responses pq s)
      else (Inl (buildErrorFromResponse response), s))"

text \<open>The \<^verbatim>\<open>catch\<close> of \<^verbatim>\<open>processBatch\<close>: reject all.\<close>

definition rejectAll :: "js_error \<Rightarrow> (string \<times> pending_request) list \<Rightarrow> state \<Rightarrow> state" where
  "rejectAll e pq s = fold (\<lambda>(i, req). onReject (req_promise req) e) pq s"

text \<open>
  The rest of \<^verbatim>\<open>processBatch\<close> for one snapshot, given what the network did. The token is
  awaited outside the \<^verbatim>\<open>try\<close>: when it fails, \<^verbatim>\<open>processBatch\<close> rejects and settles no request;
  the \<^verbatim>\<open>enqueueRequest\<close> call suspended on it then rejects too, and with it the
  \<^verbatim>\<open>resolveProfileInternal\<close> call that awaits that.
\<close>

definition processBatch_rest :: "BatchResponse list fetched \<Rightarrow> batch \<Rightarrow> state \<Rightarrow> state" where
  "processBatch_rest net b s =
     (case net of
        AuthFailed e \<Rightarrow>
          (case awaitedBy b of
             None \<Rightarrow> s
           | Some p \<Rightarrow>
               (case awaiting s p of
                  None \<Rightarrow> s
                | Some f \<Rightarrow> s\<lparr>deferred := deferred s @ [(f, Inl e)]\<rparr>))
      | FetchFailed e \<Rightarrow> rejectAll e (processingQueue b) s
      | Fetched batchResponse \<Rightarrow>
          (case processResponse batchResponse (processingQueue b) s of
             (Inl e, s1) \<Rightarrow> rejectAll e (processingQueue b) s1
           | (Inr u, s1) \<Rightarrow> s1))"

text \<open>
  The batch at position \<^verbatim>\<open>i\<close> of those in flight is answered, and its \<^verbatim>\<open>processBatch\<close> call runs
  to its end.
\<close>

definition batchDone :: "nat \<Rightarrow> BatchResponse list fetched \<Rightarrow> state \<Rightarrow> state" where
  "batchDone i net s =
     (if i < length (inflight s)
      then (processBatch_rest net (inflight s ! i)
              (s\<lparr>inflight := take i (inflight s) @ drop (Suc i) (inflight s),
                 finishing := awaitedBy (inflight s ! i)\<rparr>))\<lparr>finishing := None\<rparr>
      else s)"

text \<open>The first of the calls that go on later goes on: its promise settles.\<close>

definition continue :: "state \<Rightarrow> state" where
  "continue s =
     (case deferred s of
        [] \<Rightarrow> s
      | c # cs \<Rightarrow> settleProfile (fst c) (snd c) (s\<lparr>deferred := cs\<rparr>))"

text \<open>
  Before the next task starts, the microtask queue is emptied: the callbacks in it run in
  order, which store in a cache and queue nothing, and the calls that go on later do so. (When
  one of these calls goes on among the callbacks depends on how many steps the engine takes
  for an \<^verbatim>\<open>await\<close>; a run can put the events \<^verbatim>\<open>Microtask\<close> and \<^verbatim>\<open>Continue\<close> below in every order.)
\<close>

definition drain :: "state \<Rightarrow> state" where
  "drain s =
     (let s1 = fold runCallback (microtasks s) (s\<lparr>microtasks := []\<rparr>)
      in fold (\<lambda>c. settleProfile (fst c) (snd c)) (deferred s1) (s1\<lparr>deferred := []\<rparr>))"

section \<open>The public operations\<close>

text \<open>
  Each operation is \<^verbatim>\<open>if (!cache[emailOrId]) { ... } return cache[emailOrId];\<close>. A promise and
  an inherited property are both objects and so never false: the body of the \<^verbatim>\<open>if\<close> runs when
  reading the key gives \<^verbatim>\<open>undefined\<close>. The operations are \<^verbatim>\<open>async\<close>: the caller receives a
  promise that follows the promise returned here, is fulfilled with the inherited property
  returned here, or is rejected with the error thrown here. The value that the body passes
  to \<^verbatim>\<open>cacheByIdOrEmail\<close> is the promise it has just stored.
\<close>

definition resolveProfile :: "key \<Rightarrow> state \<Rightarrow> (js_error + property) \<times> state" where
  "resolveProfile emailOrId s =
     (if getProperty (profilesCache s) emailOrId = Undefined then
        let (profilePromise, s1) = resolveProfileInternal emailOrId s;
            s2 = s1\<lparr>profilesCache := (profilesCache s1)(emailOrId \<mapsto> profilePromise)\<rparr>
        in (case cacheByIdOrEmail (Promise profilePromise) profilePromise ProfilesCache s2 of
              (Inl e, s3) \<Rightarrow> (Inl e, s3)
            | (Inr u, s3) \<Rightarrow> (Inr (getProperty (profilesCache s3) emailOrId), s3))
      else (Inr (getProperty (profilesCache s) emailOrId), s))"

definition getPhotoUrl :: "key \<Rightarrow> state \<Rightarrow> (js_error + property) \<times> state" where
  "getPhotoUrl emailOrId s =
     (if getProperty (photosCache s) emailOrId = Undefined then
        let (photoPromise, s1) = getPhotoUrlInternal emailOrId s;
            s2 = s1\<lparr>photosCache := (photosCache s1)(emailOrId \<mapsto> photoPromise)\<rparr>
        in (case cacheByIdOrEmail (getProperty (profilesCache s2) emailOrId) photoPromise PhotosCache s2 of
              (Inl e, s3) \<Rightarrow> (Inl e, s3)
            | (Inr u, s3) \<Rightarrow> (Inr (getProperty (photosCache s3) emailOrId), s3))
      else (Inr (getProperty (photosCache s) emailOrId), s))"

definition getManager :: "key \<Rightarrow> state \<Rightarrow> (js_error + property) \<times> state" where
  "getManager emailOrId s =
     (if getProperty (managersCache s) emailOrId = Undefined then
        let (mngrProfilePromise, s1) = getManagerInternal emailOrId s;
            s2 = s1\<lparr>managersCache := (managersCache s1)(emailOrId \<mapsto> mngrProfilePromise)\<rparr>
        in (case cacheByIdOrEmail (getProperty (profilesCache s2) emailOrId) mngrProfilePromise ManagersCache s2 of
              (Inl e, s3) \<Rightarrow> (Inl e, s3)
            | (Inr u, s3) \<Rightarrow>
                (case cacheByIdOrEmail (Promise mngrProfilePromise) mngrProfilePromise ProfilesCache s3 of
                   (Inl e, s4) \<Rightarrow> (Inl e, s4)
                 | (Inr u, s4) \<Rightarrow> (Inr (getProperty (managersCache s4) emailOrId), s4)))
      else (Inr (getProperty (managersCache s) emailOrId), s))"

text \<open>
  In \<^verbatim>\<open>getDirects\<close> the seeding is attached after the call of \<^verbatim>\<open>cacheByIdOrEmail\<close>, so not when
  that call throws.
\<close>

definition getDirects :: "key \<Rightarrow> state \<Rightarrow> (js_error + property) \<times> state" where
  "getDirects emailOrId s =
     (if getProperty (directsCache s) emailOrId = Undefined then
        let (directsPromise, s1) = getDirectsInternal emailOrId s;
            s2 = s1\<lparr>directsCache := (directsCache s1)(emailOrId \<mapsto> directsPromise)\<rparr>
        in (case cacheByIdOrEmail (getProperty (profilesCache s2) emailOrId) directsPromise DirectsCache s2 of
              (Inl e, s3) \<Rightarrow> (Inl e, s3)
            | (Inr u, s3) \<Rightarrow>
                (let s4 = s3\<lparr>seeding := seeding s3 @ [directsPromise]\<rparr>
                 in (Inr (getProperty (directsCache s4) emailOrId), s4)))
      else (Inr (getProperty (directsCache s) emailOrId), s))"

section \<open>The network answers a direct request\<close>

text \<open>
  The promise of a direct fetcher settles with the result of that fetcher on the answer of
  the network. An answer for a promise that is not of that fetcher changes nothing.
\<close>

definition managerDone :: "fut \<Rightarrow> payload fetched \<Rightarrow> state \<Rightarrow> state" where
  "managerDone f net s =
     (case map_of (started s) f of
        Some (GetManagerInternal, k) \<Rightarrow> settleProfile f (getManagerInternal_result net) s
      | _ \<Rightarrow> s)"

definition photoDone :: "fut \<Rightarrow> string fetched \<Rightarrow> state \<Rightarrow> state" where
  "photoDone f net s =
     (case map_of (started s) f of
        Some (GetPhotoUrlInternal, k) \<Rightarrow> settlePhoto f (getPhotoUrlInternal_result net) s
      | _ \<Rightarrow> s)"

definition directsDone :: "fut \<Rightarrow> payload list fetched \<Rightarrow> state \<Rightarrow> state" where
  "directsDone f net s =
     (case map_of (started s) f of
        Some (GetDirectsInternal, k) \<Rightarrow> settleDirects f (getDirectsInternal_result net) s
      | _ \<Rightarrow> s)"

section \<open>Runs of the module\<close>

text \<open>
  What can happen to the module, one event at a time. A caller starts one of the four cached
  operations: that can happen at any moment, also between two callbacks of the microtask
  queue. The first callback of the microtask queue runs. The first of the calls that go on
  later goes on. A task starts, which JavaScript does only once the microtask queue is
  empty: the timer fires and runs \<^verbatim>\<open>processBatch\<close>, or the network answers a batch or a direct
  request. JavaScript runs one piece of code at a time, so a run is a list of events.
\<close>

datatype event =
    ResolveProfile key
  | GetPhotoUrl key
  | GetManager key
  | GetDirects key
  | Microtask
  | Continue
  | TimerFired
  | BatchDone nat "BatchResponse list fetched"
  | ManagerDone fut "payload fetched"
  | PhotoDone fut "string fetched"
  | DirectsDone fut "payload list fetched"

fun step :: "event \<Rightarrow> state \<Rightarrow> state" where
  "step (ResolveProfile k) s = snd (resolveProfile k s)"
| "step (GetPhotoUrl k) s = snd (getPhotoUrl k s)"
| "step (GetManager k) s = snd (getManager k s)"
| "step (GetDirects k) s = snd (getDirects k s)"
| "step Microtask s = runMicrotask s"
| "step Continue s = continue s"
| "step TimerFired s = processBatch None (drain s)"
| "step (BatchDone i net) s = batchDone i net (drain s)"
| "step (ManagerDone f net) s = managerDone f net (drain s)"
| "step (PhotoDone f net) s = photoDone f net (drain s)"
| "step (DirectsDone f net) s = directsDone f net (drain s)"

definition run :: "event list \<Rightarrow> state \<Rightarrow> state" where
  "run evs s = fold step evs s"

text \<open>The number of fetchers started so far for an operation and a key.\<close>

definition fetches :: "operation \<Rightarrow> key \<Rightarrow> state \<Rightarrow> nat" where
  "fetches opn k s = length (filter (\<lambda>c. snd c = (opn, k)) (started s))"

section \<open>Ascending the managers\<close>

text \<open>
  An inherited property has none of the fields of a profile: read as a profile, each of its
  fields is \<^verbatim>\<open>undefined\<close>.
\<close>

definition inheritedAsProfile :: IPersonaProfile where
  "inheritedAsProfile =
     \<lparr>profile_id = None, displayName = None, jobTitle = None, department = None, email = None,
      officeLocation = None, city = None, businessPhone = None, imAddress = None,
      companyName = None\<rparr>"

text \<open>
  \<^verbatim>\<open>await getManager(emailOrId)\<close>: the call, then the wait for what it returned, during which
  the microtask queue is emptied. When the call threw, the \<^verbatim>\<open>await\<close> throws that error. When it
  returned a promise still pending, the network answers the request behind it (\<^verbatim>\<open>net\<close> gives
  the answer for each promise), which settles it; the value or the error of the promise is
  the result. The value of an inherited property is that property. (The call never returns
  \<^verbatim>\<open>undefined\<close>, whose \<^verbatim>\<open>id\<close> the loop could not read.)
\<close>

definition awaitManager :: "(fut \<Rightarrow> payload fetched) \<Rightarrow> key \<Rightarrow> state \<Rightarrow> (js_error + IPersonaProfile) \<times> state" where
  "awaitManager net emailOrId s =
     (let (returned, s1) = getManager emailOrId s;
          s2 = drain s1
      in (case returned of
            Inl e \<Rightarrow> (Inl e, s2)
          | Inr Undefined \<Rightarrow> (Inl TypeError, s2)
          | Inr Inherited \<Rightarrow> (Inr inheritedAsProfile, s2)
          | Inr (Promise f) \<Rightarrow>
              (case profilePromises s2 f of
                 Pending \<Rightarrow>
                   (let r = getManagerInternal_result (net f) in (r, settleProfile f r s2))
               | Fulfilled manager \<Rightarrow> (Inr manager, s2)
               | Rejected e \<Rightarrow> (Inl e, s2))))"

text \<open>
  The loop of \<^verbatim>\<open>getAllManagers\<close> with \<^verbatim>\<open>maxDepth - i\<close> iterations left, inside its \<^verbatim>\<open>try\<close>: an
  error named \<^verbatim>\<open>NotFound\<close> ends the loop and \<^verbatim>\<open>res\<close> is returned, any other error is thrown
  again.
\<close>

fun managersLoop :: "(fut \<Rightarrow> payload fetched) \<Rightarrow> nat \<Rightarrow> key \<Rightarrow> IPersonaProfile list \<Rightarrow> state \<Rightarrow> (js_error + IPersonaProfile list) \<times> state" where
  "managersLoop net 0 emailOrId res s = (Inr res, s)"
| "managersLoop net (Suc n) emailOrId res s =
     (case awaitManager net emailOrId s of
        (Inr manager, s') \<Rightarrow>
          managersLoop net n (key_of (profile_id manager)) (res @ [manager]) s'
      | (Inl e, s') \<Rightarrow>
          if name e \<noteq> ''NotFound'' then (Inl e, s') else (Inr res, s'))"

definition maxDepth :: nat where
  "maxDepth = 15"

definition getAllManagers :: "(fut \<Rightarrow> payload fetched) \<Rightarrow> key \<Rightarrow> state \<Rightarrow> (js_error + IPersonaProfile list) \<times> state" where
  "getAllManagers net emailOrId s = managersLoop net maxDepth emailOrId [] s"

section \<open>Notions used in the statements\<close>

text \<open>Every promise in the log of the fetchers started was made before the next promise.\<close>

definition fresh_ids :: "state \<Rightarrow> bool" where
  "fresh_ids s = list_all (\<lambda>c. fst c < nextPromise s) (started s)"

text \<open>The keys under which \<^verbatim>\<open>cacheByIdOrEmail\<close> stores for a profile: its id, and its email if it has one.\<close>

definition hits :: "IPersonaProfile \<Rightarrow> key \<Rightarrow> bool" where
  "hits p k = (k = key_of (profile_id p) \<or> (truthy (email p) \<and> k = key_of (email p)))"

text \<open>The four caches together.\<close>

definition caches :: "state \<Rightarrow> (key \<rightharpoonup> fut) \<times> (key \<rightharpoonup> fut) \<times> (key \<rightharpoonup> fut) \<times> (key \<rightharpoonup> fut)" where
  "caches s = (photosCache s, profilesCache s, managersCache s, directsCache s)"

text \<open>An entry of a direct-reports response that is marked as disabled: \<^verbatim>\<open>accountEnabled\<close> is \<^verbatim>\<open>false\<close>.\<close>

definition marked_disabled :: "payload \<Rightarrow> bool" where
  "marked_disabled p = (case d_accountEnabled p of JBool b \<Rightarrow> \<not> b | _ \<Rightarrow> False)"

text \<open>
  A snapshot in which every request has a promise of its own, and response entries whose ids
  are all ids of the snapshot.
\<close>

definition promises_distinct :: "(string \<times> pending_request) list \<Rightarrow> bool" where
  "promises_distinct pq = distinct (map (req_promise \<circ> snd) pq)"

definition ids_known :: "(string \<times> pending_request) list \<Rightarrow> BatchResponse list \<Rightarrow> bool" where
  "ids_known pq rs = list_all (\<lambda>r. map_of pq (resp_id r) \<noteq> None) rs"

text \<open>
  Following the managers \<^verbatim>\<open>ps\<close> upwards from a key: each lookup succeeds and gives the next
  profile of \<^verbatim>\<open>ps\<close>. The result is the key and the state reached.
\<close>

fun lookups :: "(fut \<Rightarrow> payload fetched) \<Rightarrow> key \<Rightarrow> state \<Rightarrow> IPersonaProfile list \<Rightarrow> (key \<times> state) option" where
  "lookups net k s [] = Some (k, s)"
| "lookups net k s (p # ps) =
     (case awaitManager net k s of
        (Inr manager, s') \<Rightarrow>
          if manager = p then lookups net (key_of (profile_id p)) s' ps else None
      | (Inl e, s') \<Rightarrow> None)"

text \<open>Every key that has an entry in a cache of \<^verbatim>\<open>s\<close> has one in the same cache of \<^verbatim>\<open>s'\<close>.\<close>

definition kept :: "state \<Rightarrow> state \<Rightarrow> bool" where
  "kept s s' =
     (\<forall>k. (photosCache s k \<noteq> None \<longrightarrow> photosCache s' k \<noteq> None)
        \<and> (profilesCache s k \<noteq> None \<longrightarrow> profilesCache s' k \<noteq> None)
        \<and> (managersCache s k \<noteq> None \<longrightarrow> managersCache s' k \<noteq> None)
        \<and> (directsCache s k \<noteq> None \<longrightarrow> directsCache s' k \<noteq> None))"

text \<open>The fetcher behind each cache.\<close>

definition operation_of :: "cache_name \<Rightarrow> operation" where
  "operation_of c =
     (case c of
        PhotosCache \<Rightarrow> GetPhotoUrlInternal
      | ProfilesCache \<Rightarrow> ResolveProfileInternal
      | ManagersCache \<Rightarrow> GetManagerInternal
      | DirectsCache \<Rightarrow> GetDirectsInternal)"

text \<open>The public operation that reads and fills each cache.\<close>

definition lookup :: "cache_name \<Rightarrow> key \<Rightarrow> state \<Rightarrow> (js_error + property) \<times> state" where
  "lookup c k s =
     (case c of
        PhotosCache \<Rightarrow> getPhotoUrl k s
      | ProfilesCache \<Rightarrow> resolveProfile k s
      | ManagersCache \<Rightarrow> getManager k s
      | DirectsCache \<Rightarrow> getDirects k s)"

definition lookup_event :: "cache_name \<Rightarrow> key \<Rightarrow> event" where
  "lookup_event c k =
     (case c of
        PhotosCache \<Rightarrow> GetPhotoUrl k
      | ProfilesCache \<Rightarrow> ResolveProfile k
      | ManagersCache \<Rightarrow> GetManager k
      | DirectsCache \<Rightarrow> GetDirects k)"

text \<open>
  The fetcher that an event starts: a lookup of a key that reads as \<^verbatim>\<open>undefined\<close> starts one.
\<close>

definition new_fetch :: "event \<Rightarrow> state \<Rightarrow> (fut \<times> operation \<times> key) list" where
  "new_fetch ev s =
     (case ev of
        ResolveProfile k \<Rightarrow>
          if getProperty (profilesCache s) k = Undefined
          then [(nextPromise s, ResolveProfileInternal, k)] else []
      | GetPhotoUrl k \<Rightarrow>
          if getProperty (photosCache s) k = Undefined
          then [(nextPromise s, GetPhotoUrlInternal, k)] else []
      | GetManager k \<Rightarrow>
          if getProperty (managersCache s) k = Undefined
          then [(nextPromise s, GetManagerInternal, k)] else []
      | GetDirects k \<Rightarrow>
          if getProperty (directsCache s) k = Undefined
          then [(nextPromise s, GetDirectsInternal, k)] else []
      | _ \<Rightarrow> [])"

text \<open>The events that start a task.\<close>

definition starts_task :: "event \<Rightarrow> bool" where
  "starts_task ev =
     (case ev of
        TimerFired \<Rightarrow> True
      | BatchDone i net \<Rightarrow> True
      | ManagerDone f net \<Rightarrow> True
      | PhotoDone f net \<Rightarrow> True
      | DirectsDone f net \<Rightarrow> True
      | _ \<Rightarrow> False)"

text \<open>
  The callbacks of \<^verbatim>\<open>cacheByIdOrEmail\<close> that an event can run: the first of the microtask queue
  for the event \<^verbatim>\<open>Microtask\<close>; the callbacks registered on pending promises for the event
  \<^verbatim>\<open>Continue\<close>, which settles a promise; both the microtask queue and the registered callbacks
  for an event that starts a task. A lookup runs none.
\<close>

definition callbacks_due :: "event \<Rightarrow> state \<Rightarrow> (fut \<times> cache_name \<times> fut) list" where
  "callbacks_due ev s =
     (if starts_task ev then microtasks s @ thens s
      else (case ev of
              Microtask \<Rightarrow> take 1 (microtasks s)
            | Continue \<Rightarrow> thens s
            | _ \<Rightarrow> []))"

text \<open>
  The moments of an event at which the promise of a callback that ran is fulfilled: the end
  of the event and, for an event that starts a task, the start of that task, when the
  microtask queue has been emptied.
\<close>

definition moments :: "event \<Rightarrow> state \<Rightarrow> state list" where
  "moments ev s = (if starts_task ev then [drain s, step ev s] else [step ev s])"

text \<open>The promise \<^verbatim>\<open>pp\<close> is fulfilled with a profile whose id or email is the key.\<close>

definition fulfilled_for :: "key \<Rightarrow> fut \<Rightarrow> state \<Rightarrow> bool" where
  "fulfilled_for k pp s = (case profilePromises s pp of Fulfilled p \<Rightarrow> hits p k | _ \<Rightarrow> False)"

text \<open>
  A cross-index write of the value \<^verbatim>\<open>v\<close> under the key \<^verbatim>\<open>k\<close> of the cache \<^verbatim>\<open>c\<close> in the event \<^verbatim>\<open>ev\<close>:
  a callback that the event can run stores \<^verbatim>\<open>v\<close> in \<^verbatim>\<open>c\<close>, and the promise it is attached to is
  fulfilled, before or by the event, with a profile whose id or email is \<^verbatim>\<open>k\<close>.
\<close>

definition cross_write :: "cache_name \<Rightarrow> key \<Rightarrow> fut \<Rightarrow> event \<Rightarrow> state \<Rightarrow> bool" where
  "cross_write c k v ev s =
     list_ex (\<lambda>t. fst (snd t) = c \<and> snd (snd t) = v
                  \<and> list_ex (fulfilled_for k (fst t)) (moments ev s))
       (callbacks_due ev s)"

text \<open>Some event of the run makes a cross-index write of \<^verbatim>\<open>v\<close> under \<^verbatim>\<open>k\<close>.\<close>

fun rewritten :: "cache_name \<Rightarrow> key \<Rightarrow> fut \<Rightarrow> event list \<Rightarrow> state \<Rightarrow> bool" where
  "rewritten c k v [] s = False"
| "rewritten c k v (ev # evs) s = (cross_write c k v ev s \<or> rewritten c k v evs (step ev s))"

text \<open>
  From a state \<^verbatim>\<open>a\<close> to a state \<^verbatim>\<open>b\<close> within one task, when the callbacks registered in \<^verbatim>\<open>a\<close> are
  among \<^verbatim>\<open>D\<close>: so are those of \<^verbatim>\<open>b\<close>, a fulfilled promise stays as it is, and an entry of a cache
  that differs in \<^verbatim>\<open>b\<close> holds the value of a callback of \<^verbatim>\<open>D\<close> for that cache, attached to a promise
  that is fulfilled in \<^verbatim>\<open>b\<close> with a profile whose id or email is the key.
\<close>

definition explained :: "(fut \<times> cache_name \<times> fut) set \<Rightarrow> state \<Rightarrow> state \<Rightarrow> bool" where
  "explained D a b =
     (set (thens a) \<subseteq> D \<longrightarrow>
        set (thens b) \<subseteq> D
        \<and> (\<forall>pp p. profilePromises a pp = Fulfilled p \<longrightarrow> profilePromises b pp = Fulfilled p)
        \<and> (\<forall>c k. cache c b k = cache c a k
                 \<or> (\<exists>t \<in> D. fst (snd t) = c \<and> cache c b k = Some (snd (snd t))
                            \<and> fulfilled_for k (fst t) b)))"

text \<open>
  The callbacks registered for the profile cache store the promise they are registered on.
\<close>

definition own_callbacks :: "state \<Rightarrow> bool" where
  "own_callbacks s = list_all (\<lambda>t. fst (snd t) = ProfilesCache \<longrightarrow> snd (snd t) = fst t) (thens s)"

text \<open>
  How a later state \<^verbatim>\<open>s'\<close> relates to an earlier state \<^verbatim>\<open>s\<close>: promises are only added; a promise
  of \<^verbatim>\<open>s\<close> that is pending in \<^verbatim>\<open>s'\<close> was pending in \<^verbatim>\<open>s\<close> and has kept the callbacks registered
  on it; and the two conditions on the bookkeeping carry over.
\<close>

definition follows :: "state \<Rightarrow> state \<Rightarrow> bool" where
  "follows s s' =
     (nextPromise s \<le> nextPromise s'
      \<and> (\<forall>f. f < nextPromise s \<longrightarrow> profilePromises s' f = Pending \<longrightarrow>
             profilePromises s f = Pending \<and> (\<forall>t \<in> set (thens s). fst t = f \<longrightarrow> t \<in> set (thens s')))
      \<and> (own_callbacks s \<longrightarrow> own_callbacks s')
      \<and> (fresh_ids s \<longrightarrow> fresh_ids s'))"

text \<open>
  The promise \<^verbatim>\<open>f\<close> exists, is pending, and has the callback that \<^verbatim>\<open>resolveProfile\<close> registers
  on it: store \<^verbatim>\<open>f\<close> itself in the profile cache.
\<close>

definition registered :: "fut \<Rightarrow> state \<Rightarrow> bool" where
  "registered f s =
     (f < nextPromise s \<and> profilePromises s f = Pending \<and> (f, ProfilesCache, f) \<in> set (thens s))"

text \<open>
  The promises of the requests that wait in the queue or in a batch in flight, and the
  condition that they are all different, have been made, and are pending.
\<close>

definition promises :: "(string \<times> pending_request) list \<Rightarrow> fut list" where
  "promises pq = map (req_promise \<circ> snd) pq"

definition batch_promises :: "state \<Rightarrow> fut list" where
  "batch_promises s = promises (queue s) @ promises (concat (map processingQueue (inflight s)))"

definition batches_wf :: "state \<Rightarrow> bool" where
  "batches_wf s =
     (distinct (batch_promises s)
      \<and> list_all (\<lambda>p. p < nextPromise s \<and> batchPromises s p = Pending) (batch_promises s))"

section \<open>Concrete inputs of the examples\<close>

text \<open>Responses, batch entries and directory entries.\<close>

definition notFound :: "'b response" where
  "notFound = \<lparr>status = 404, statusText = ''Not Found'', content = Inl (Error ''no body'')\<rparr>"

definition okResponse :: "'b \<Rightarrow> 'b response" where
  "okResponse v = \<lparr>status = 200, statusText = ''OK'', content = Inr v\<rparr>"

definition batchOk :: "BatchResponse list \<Rightarrow> BatchResponse list fetched" where
  "batchOk rs = Fetched \<lparr>status = 200, statusText = ''OK'', content = Inr rs\<rparr>"

definition person :: "string \<Rightarrow> string option \<Rightarrow> payload" where
  "person i m =
     \<lparr>d_id = Some i, d_displayName = None, d_jobTitle = None, d_mail = m,
      d_department = None, d_officeLocation = None, d_city = None, d_businessPhones = None,
      d_imAddresses = None, d_companyName = None, d_accountEnabled = JUndefined,
      d_error_message = None\<rparr>"

definition entry :: "string \<Rightarrow> jsval \<Rightarrow> payload" where
  "entry i enabled = (person i None)\<lparr>d_accountEnabled := enabled\<rparr>"

definition found :: "string \<Rightarrow> payload \<Rightarrow> BatchResponse" where
  "found i data = \<lparr>resp_id = i, resp_status = 200, resp_headers = [], resp_body = Some data\<rparr>"

definition batchItem :: "string \<Rightarrow> string \<Rightarrow> BatchResponse" where
  "batchItem i u = \<lparr>resp_id = i, resp_status = 200, resp_headers = [], resp_body = Some (person u None)\<rparr>"

text \<open>
  The item of a batch response for a user that the directory does not know: status 404 and
  the error object of the service as body.
\<close>

definition itemNotFound :: "string \<Rightarrow> BatchResponse" where
  "itemNotFound i =
     \<lparr>resp_id = i, resp_status = 404, resp_headers = [],
      resp_body = Some ((person [] None)\<lparr>d_id := None, d_error_message := Some ''Resource not found''\<rparr>)\<rparr>"

text \<open>The state with one batch of three profile requests in flight.\<close>

definition three_pending :: state where
  "three_pending = run [ResolveProfile ''a'', ResolveProfile ''b'', ResolveProfile ''c'', TimerFired] initial"

text \<open>The answers of the network for a chain of three managers above \<^verbatim>\<open>u0\<close>, and for a cycle.\<close>

definition chain3 :: "fut \<Rightarrow> payload fetched" where
  "chain3 f =
     (if f = 0 then Fetched (okResponse (person ''u1'' None))
      else if f = 1 then Fetched (okResponse (person ''u2'' None))
      else if f = 2 then Fetched (okResponse (person ''u3'' None))
      else Fetched notFound)"

definition own_manager :: "fut \<Rightarrow> payload fetched" where
  "own_manager f = Fetched (okResponse (person ''boss'' None))"

text \<open>The three managers above \<^verbatim>\<open>u0\<close>, and a network that answers every request with a 500.\<close>

definition managers3 :: "IPersonaProfile list" where
  "managers3 = map (\<lambda>i. buildProfile (person i None)) [''u1'', ''u2'', ''u3'']"

definition server_error :: "fut \<Rightarrow> payload fetched" where
  "server_error f = Fetched \<lparr>status = 500, statusText = ''Server Error'', content = Inl (Error ''no body'')\<rparr>"

section \<open>Properties\<close>

subsection \<open>What each step leaves unchanged\<close>

lemma store_frame [simp]:
  "profilePromises (store c k v s) = profilePromises s"
  "photoPromises (store c k v s) = photoPromises s"
  "directsPromises (store c k v s) = directsPromises s"
  "batchPromises (store c k v s) = batchPromises s"
  "nextPromise (store c k v s) = nextPromise s"
  "started (store c k v s) = started s"
  "thens (store c k v s) = thens s"
  "microtasks (store c k v s) = microtasks s"
  "seeding (store c k v s) = seeding s"
  "awaiting (store c k v s) = awaiting s"
  "deferred (store c k v s) = deferred s"
  "finishing (store c k v s) = finishing s"
  "queue (store c k v s) = queue s"
  "inflight (store c k v s) = inflight s"
  "lastRequestId (store c k v s) = lastRequestId s"
  by (cases c; simp add: store_def)+

lemma then_frame [simp]:
  "profilePromises (cacheByIdOrEmail_then p c v s) = profilePromises s"
  "photoPromises (cacheByIdOrEmail_then p c v s) = photoPromises s"
  "directsPromises (cacheByIdOrEmail_then p c v s) = directsPromises s"
  "batchPromises (cacheByIdOrEmail_then p c v s) = batchPromises s"
  "nextPromise (cacheByIdOrEmail_then p c v s) = nextPromise s"
  "started (cacheByIdOrEmail_then p c v s) = started s"
  "thens (cacheByIdOrEmail_then p c v s) = thens s"
  "microtasks (cacheByIdOrEmail_then p c v s) = microtasks s"
  "seeding (cacheByIdOrEmail_then p c v s) = seeding s"
  "awaiting (cacheByIdOrEmail_then p c v s) = awaiting s"
  "deferred (cacheByIdOrEmail_then p c v s) = deferred s"
  "finishing (cacheByIdOrEmail_then p c v s) = finishing s"
  "queue (cacheByIdOrEmail_then p c v s) = queue s"
  "inflight (cacheByIdOrEmail_then p c v s) = inflight s"
  "lastRequestId (cacheByIdOrEmail_then p c v s) = lastRequestId s"
  by (simp_all add: cacheByIdOrEmail_then_def Let_def)

lemma then_caches [simp]:
  "photosCache (cacheByIdOrEmail_then p c v s) k =
     (if c = PhotosCache \<and> hits p k then Some v else photosCache s k)"
  "profilesCache (cacheByIdOrEmail_then p c v s) k =
     (if c = ProfilesCache \<and> hits p k then Some v else profilesCache s k)"
  "managersCache (cacheByIdOrEmail_then p c v s) k =
     (if c = ManagersCache \<and> hits p k then Some v else managersCache s k)"
  "directsCache (cacheByIdOrEmail_then p c v s) k =
     (if c = DirectsCache \<and> hits p k then Some v else directsCache s k)"
  by (cases c; simp add: cacheByIdOrEmail_then_def store_def hits_def Let_def)+

lemma then_cache: "cache c' (cacheByIdOrEmail_then p c v s) k = (if c' = c \<and> hits p k then Some v else cache c' s k)"
  by (cases c') (auto simp: cache_def)

lemma thens_fold_frame [simp]:
  "profilePromises (fold (\<lambda>t. cacheByIdOrEmail_then p (fst (snd t)) (snd (snd t))) ts s) = profilePromises s"
  "photoPromises (fold (\<lambda>t. cacheByIdOrEmail_then p (fst (snd t)) (snd (snd t))) ts s) = photoPromises s"
  "directsPromises (fold (\<lambda>t. cacheByIdOrEmail_then p (fst (snd t)) (snd (snd t))) ts s) = directsPromises s"
  "batchPromises (fold (\<lambda>t. cacheByIdOrEmail_then p (fst (snd t)) (snd (snd t))) ts s) = batchPromises s"
  "nextPromise (fold (\<lambda>t. cacheByIdOrEmail_then p (fst (snd t)) (snd (snd t))) ts s) = nextPromise s"
  "started (fold (\<lambda>t. cacheByIdOrEmail_then p (fst (snd t)) (snd (snd t))) ts s) = started s"
  "thens (fold (\<lambda>t. cacheByIdOrEmail_then p (fst (snd t)) (snd (snd t))) ts s) = thens s"
  "microtasks (fold (\<lambda>t. cacheByIdOrEmail_then p (fst (snd t)) (snd (snd t))) ts s) = microtasks s"
  "seeding (fold (\<lambda>t. cacheByIdOrEmail_then p (fst (snd t)) (snd (snd t))) ts s) = seeding s"
  "awaiting (fold (\<lambda>t. cacheByIdOrEmail_then p (fst (snd t)) (snd (snd t))) ts s) = awaiting s"
  "deferred (fold (\<lambda>t. cacheByIdOrEmail_then p (fst (snd t)) (snd (snd t))) ts s) = deferred s"
  "finishing (fold (\<lambda>t. cacheByIdOrEmail_then p (fst (snd t)) (snd (snd t))) ts s) = finishing s"
  "queue (fold (\<lambda>t. cacheByIdOrEmail_then p (fst (snd t)) (snd (snd t))) ts s) = queue s"
  "inflight (fold (\<lambda>t. cacheByIdOrEmail_then p (fst (snd t)) (snd (snd t))) ts s) = inflight s"
  "lastRequestId (fold (\<lambda>t. cacheByIdOrEmail_then p (fst (snd t)) (snd (snd t))) ts s) = lastRequestId s"
  by (induction ts arbitrary: s; simp)+

lemma thenCatch_frame [simp]:
  "photosCache (thenCatch pp c v s) = photosCache s"
  "profilesCache (thenCatch pp c v s) = profilesCache s"
  "managersCache (thenCatch pp c v s) = managersCache s"
  "directsCache (thenCatch pp c v s) = directsCache s"
  "profilePromises (thenCatch pp c v s) = profilePromises s"
  "photoPromises (thenCatch pp c v s) = photoPromises s"
  "directsPromises (thenCatch pp c v s) = directsPromises s"
  "batchPromises (thenCatch pp c v s) = batchPromises s"
  "nextPromise (thenCatch pp c v s) = nextPromise s"
  "started (thenCatch pp c v s) = started s"
  "seeding (thenCatch pp c v s) = seeding s"
  "awaiting (thenCatch pp c v s) = awaiting s"
  "deferred (thenCatch pp c v s) = deferred s"
  "finishing (thenCatch pp c v s) = finishing s"
  "queue (thenCatch pp c v s) = queue s"
  "inflight (thenCatch pp c v s) = inflight s"
  "lastRequestId (thenCatch pp c v s) = lastRequestId s"
  by (simp_all add: thenCatch_def split: outcome.splits)

lemma snd_cacheByIdOrEmail:
  "snd (cacheByIdOrEmail pv v c s) = (case pv of Promise pp \<Rightarrow> thenCatch pp c v s | _ \<Rightarrow> s)"
  by (simp add: cacheByIdOrEmail_def split: property.splits)

lemma fst_cacheByIdOrEmail:
  "fst (cacheByIdOrEmail pv v c s) = (if pv = Inherited then Inl TypeError else Inr ())"
  by (simp add: cacheByIdOrEmail_def split: property.splits)

lemma runCallback_frame [simp]:
  "profilePromises (runCallback t s) = profilePromises s"
  "photoPromises (runCallback t s) = photoPromises s"
  "directsPromises (runCallback t s) = directsPromises s"
  "batchPromises (runCallback t s) = batchPromises s"
  "nextPromise (runCallback t s) = nextPromise s"
  "started (runCallback t s) = started s"
  "thens (runCallback t s) = thens s"
  "microtasks (runCallback t s) = microtasks s"
  "seeding (runCallback t s) = seeding s"
  "awaiting (runCallback t s) = awaiting s"
  "deferred (runCallback t s) = deferred s"
  "finishing (runCallback t s) = finishing s"
  "queue (runCallback t s) = queue s"
  "inflight (runCallback t s) = inflight s"
  "lastRequestId (runCallback t s) = lastRequestId s"
  by (simp_all add: runCallback_def split: outcome.splits)

lemma fold_runCallback_frame [simp]:
  "profilePromises (fold runCallback ts s) = profilePromises s"
  "photoPromises (fold runCallback ts s) = photoPromises s"
  "directsPromises (fold runCallback ts s) = directsPromises s"
  "batchPromises (fold runCallback ts s) = batchPromises s"
  "nextPromise (fold runCallback ts s) = nextPromise s"
  "started (fold runCallback ts s) = started s"
  "thens (fold runCallback ts s) = thens s"
  "microtasks (fold runCallback ts s) = microtasks s"
  "seeding (fold runCallback ts s) = seeding s"
  "awaiting (fold runCallback ts s) = awaiting s"
  "deferred (fold runCallback ts s) = deferred s"
  "finishing (fold runCallback ts s) = finishing s"
  "queue (fold runCallback ts s) = queue s"
  "inflight (fold runCallback ts s) = inflight s"
  "lastRequestId (fold runCallback ts s) = lastRequestId s"
  by (induction ts arbitrary: s; simp)+

lemma runMicrotask_frame [simp]:
  "profilePromises (runMicrotask s) = profilePromises s"
  "photoPromises (runMicrotask s) = photoPromises s"
  "directsPromises (runMicrotask s) = directsPromises s"
  "batchPromises (runMicrotask s) = batchPromises s"
  "nextPromise (runMicrotask s) = nextPromise s"
  "started (runMicrotask s) = started s"
  "thens (runMicrotask s) = thens s"
  "seeding (runMicrotask s) = seeding s"
  "awaiting (runMicrotask s) = awaiting s"
  "deferred (runMicrotask s) = deferred s"
  "finishing (runMicrotask s) = finishing s"
  "queue (runMicrotask s) = queue s"
  "inflight (runMicrotask s) = inflight s"
  "lastRequestId (runMicrotask s) = lastRequestId s"
  by (simp_all add: runMicrotask_def split: list.splits)

lemma settleProfile_frame [simp]:
  "photoPromises (settleProfile f r s) = photoPromises s"
  "directsPromises (settleProfile f r s) = directsPromises s"
  "batchPromises (settleProfile f r s) = batchPromises s"
  "nextPromise (settleProfile f r s) = nextPromise s"
  "started (settleProfile f r s) = started s"
  "microtasks (settleProfile f r s) = microtasks s"
  "seeding (settleProfile f r s) = seeding s"
  "awaiting (settleProfile f r s) = awaiting s"
  "deferred (settleProfile f r s) = deferred s"
  "finishing (settleProfile f r s) = finishing s"
  "queue (settleProfile f r s) = queue s"
  "inflight (settleProfile f r s) = inflight s"
  "lastRequestId (settleProfile f r s) = lastRequestId s"
  by (simp_all add: settleProfile_def Let_def split: sum.splits)

lemma fold_settleProfile_frame [simp]:
  "photoPromises (fold (\<lambda>c. settleProfile (fst c) (snd c)) cs s) = photoPromises s"
  "directsPromises (fold (\<lambda>c. settleProfile (fst c) (snd c)) cs s) = directsPromises s"
  "batchPromises (fold (\<lambda>c. settleProfile (fst c) (snd c)) cs s) = batchPromises s"
  "nextPromise (fold (\<lambda>c. settleProfile (fst c) (snd c)) cs s) = nextPromise s"
  "started (fold (\<lambda>c. settleProfile (fst c) (snd c)) cs s) = started s"
  "microtasks (fold (\<lambda>c. settleProfile (fst c) (snd c)) cs s) = microtasks s"
  "seeding (fold (\<lambda>c. settleProfile (fst c) (snd c)) cs s) = seeding s"
  "awaiting (fold (\<lambda>c. settleProfile (fst c) (snd c)) cs s) = awaiting s"
  "deferred (fold (\<lambda>c. settleProfile (fst c) (snd c)) cs s) = deferred s"
  "finishing (fold (\<lambda>c. settleProfile (fst c) (snd c)) cs s) = finishing s"
  "queue (fold (\<lambda>c. settleProfile (fst c) (snd c)) cs s) = queue s"
  "inflight (fold (\<lambda>c. settleProfile (fst c) (snd c)) cs s) = inflight s"
  "lastRequestId (fold (\<lambda>c. settleProfile (fst c) (snd c)) cs s) = lastRequestId s"
  by (induction cs arbitrary: s; simp)+

lemma continue_frame [simp]:
  "photoPromises (continue s) = photoPromises s"
  "directsPromises (continue s) = directsPromises s"
  "batchPromises (continue s) = batchPromises s"
  "nextPromise (continue s) = nextPromise s"
  "started (continue s) = started s"
  "microtasks (continue s) = microtasks s"
  "seeding (continue s) = seeding s"
  "awaiting (continue s) = awaiting s"
  "finishing (continue s) = finishing s"
  "queue (continue s) = queue s"
  "inflight (continue s) = inflight s"
  "lastRequestId (continue s) = lastRequestId s"
  by (simp_all add: continue_def split: list.splits)

lemma drain_frame [simp]:
  "photoPromises (drain s) = photoPromises s"
  "directsPromises (drain s) = directsPromises s"
  "batchPromises (drain s) = batchPromises s"
  "nextPromise (drain s) = nextPromise s"
  "started (drain s) = started s"
  "microtasks (drain s) = []"
  "deferred (drain s) = []"
  "seeding (drain s) = seeding s"
  "awaiting (drain s) = awaiting s"
  "finishing (drain s) = finishing s"
  "queue (drain s) = queue s"
  "inflight (drain s) = inflight s"
  "lastRequestId (drain s) = lastRequestId s"
  by (simp_all add: drain_def Let_def)

lemma settlePhoto_frame [simp]:
  "photosCache (settlePhoto f r s) = photosCache s"
  "profilesCache (settlePhoto f r s) = profilesCache s"
  "managersCache (settlePhoto f r s) = managersCache s"
  "directsCache (settlePhoto f r s) = directsCache s"
  "profilePromises (settlePhoto f r s) = profilePromises s"
  "directsPromises (settlePhoto f r s) = directsPromises s"
  "batchPromises (settlePhoto f r s) = batchPromises s"
  "nextPromise (settlePhoto f r s) = nextPromise s"
  "started (settlePhoto f r s) = started s"
  "thens (settlePhoto f r s) = thens s"
  "microtasks (settlePhoto f r s) = microtasks s"
  "seeding (settlePhoto f r s) = seeding s"
  "awaiting (settlePhoto f r s) = awaiting s"
  "deferred (settlePhoto f r s) = deferred s"
  "finishing (settlePhoto f r s) = finishing s"
  "queue (settlePhoto f r s) = queue s"
  "inflight (settlePhoto f r s) = inflight s"
  "lastRequestId (settlePhoto f r s) = lastRequestId s"
  by (simp_all add: settlePhoto_def)

lemma seedDirect_frame [simp]:
  "photosCache (seedDirect d s) = photosCache s"
  "profilesCache (seedDirect d s) = profilesCache s"
  "managersCache (seedDirect d s) = managersCache s"
  "directsCache (seedDirect d s) = directsCache s"
  "photoPromises (seedDirect d s) = photoPromises s"
  "directsPromises (seedDirect d s) = directsPromises s"
  "batchPromises (seedDirect d s) = batchPromises s"
  "started (seedDirect d s) = started s"
  "seeding (seedDirect d s) = seeding s"
  "awaiting (seedDirect d s) = awaiting s"
  "deferred (seedDirect d s) = deferred s"
  "finishing (seedDirect d s) = finishing s"
  "queue (seedDirect d s) = queue s"
  "inflight (seedDirect d s) = inflight s"
  "lastRequestId (seedDirect d s) = lastRequestId s"
  "thens (seedDirect d s) = thens s"
  by (simp_all add: seedDirect_def Let_def cacheByIdOrEmail_def thenCatch_def)

lemma fold_seedDirect_frame [simp]:
  "photosCache (fold seedDirect ds s) = photosCache s"
  "profilesCache (fold seedDirect ds s) = profilesCache s"
  "managersCache (fold seedDirect ds s) = managersCache s"
  "directsCache (fold seedDirect ds s) = directsCache s"
  "photoPromises (fold seedDirect ds s) = photoPromises s"
  "directsPromises (fold seedDirect ds s) = directsPromises s"
  "batchPromises (fold seedDirect ds s) = batchPromises s"
  "started (fold seedDirect ds s) = started s"
  "seeding (fold seedDirect ds s) = seeding s"
  "awaiting (fold seedDirect ds s) = awaiting s"
  "deferred (fold seedDirect ds s) = deferred s"
  "finishing (fold seedDirect ds s) = finishing s"
  "queue (fold seedDirect ds s) = queue s"
  "inflight (fold seedDirect ds s) = inflight s"
  "lastRequestId (fold seedDirect ds s) = lastRequestId s"
  "thens (fold seedDirect ds s) = thens s"
  by (induction ds arbitrary: s; simp)+

lemma settleDirects_frame [simp]:
  "photosCache (settleDirects f r s) = photosCache s"
  "profilesCache (settleDirects f r s) = profilesCache s"
  "managersCache (settleDirects f r s) = managersCache s"
  "directsCache (settleDirects f r s) = directsCache s"
  "photoPromises (settleDirects f r s) = photoPromises s"
  "batchPromises (settleDirects f r s) = batchPromises s"
  "started (settleDirects f r s) = started s"
  "seeding (settleDirects f r s) = seeding s"
  "awaiting (settleDirects f r s) = awaiting s"
  "deferred (settleDirects f r s) = deferred s"
  "finishing (settleDirects f r s) = finishing s"
  "queue (settleDirects f r s) = queue s"
  "inflight (settleDirects f r s) = inflight s"
  "lastRequestId (settleDirects f r s) = lastRequestId s"
  "thens (settleDirects f r s) = thens s"
  by (simp_all add: settleDirects_def Let_def split: sum.splits)

lemma settleProfile_promises:
  "profilePromises (settleProfile f r s) =
     (if profilePromises s f = Pending then (profilePromises s)(f := settled r) else profilePromises s)"
  by (simp add: settleProfile_def Let_def split: sum.splits)

lemma settleDirects_promises:
  "directsPromises (settleDirects f r s) =
     (if directsPromises s f = Pending then (directsPromises s)(f := settled r) else directsPromises s)"
  by (simp add: settleDirects_def Let_def split: sum.splits)

lemma settlePhoto_promises:
  "photoPromises (settlePhoto f r s) =
     (if photoPromises s f = Pending then (photoPromises s)(f := settled r) else photoPromises s)"
  by (simp add: settlePhoto_def)

subsection \<open>Reading a cache\<close>

lemma getProperty_own [simp]: "obj k = Some f \<Longrightarrow> getProperty obj k = Promise f"
  by (simp add: getProperty_def)

lemma getProperty_Undefined: "getProperty obj k = Undefined \<Longrightarrow> obj k = None"
  by (simp add: getProperty_def split: option.splits)

lemma getProperty_Promise: "getProperty obj k = Promise f \<longleftrightarrow> obj k = Some f"
  by (simp add: getProperty_def split: option.splits)

lemma getProperty_update_same [simp]: "getProperty (obj(k \<mapsto> f)) k = Promise f"
  by (simp add: getProperty_def)

lemma getProperty_kept:
  assumes "\<forall>k. obj k \<noteq> None \<longrightarrow> obj' k \<noteq> None" and "getProperty obj k \<noteq> Undefined"
  shows "getProperty obj' k \<noteq> Undefined"
  using assms by (auto simp: getProperty_def split: option.splits if_splits)

subsection \<open>The state after each public operation\<close>

text \<open>
  The state in which the body of an operation calls \<^verbatim>\<open>cacheByIdOrEmail\<close>: the fetcher has
  returned its promise, which is stored under the key.
\<close>

lemma resolveProfile_state:
  "snd (resolveProfile k s) =
     (if getProperty (profilesCache s) k = Undefined then
        thenCatch (nextPromise s) ProfilesCache (nextPromise s)
          ((snd (resolveProfileInternal k s))\<lparr>profilesCache := (profilesCache s)(k \<mapsto> nextPromise s)\<rparr>)
      else s)"
  by (simp add: resolveProfile_def resolveProfileInternal_def enqueueRequest_def processBatch_def
      cacheByIdOrEmail_def Let_def split_def)

lemma getPhotoUrl_state:
  "snd (getPhotoUrl k s) =
     (if getProperty (photosCache s) k = Undefined then
        (case getProperty (profilesCache s) k of
           Promise pp \<Rightarrow>
             thenCatch pp PhotosCache (nextPromise s)
               ((snd (getPhotoUrlInternal k s))\<lparr>photosCache := (photosCache s)(k \<mapsto> nextPromise s)\<rparr>)
         | _ \<Rightarrow> (snd (getPhotoUrlInternal k s))\<lparr>photosCache := (photosCache s)(k \<mapsto> nextPromise s)\<rparr>)
      else s)"
  by (simp add: getPhotoUrl_def getPhotoUrlInternal_def cacheByIdOrEmail_def Let_def
      split: property.splits)

lemma getManager_state:
  "snd (getManager k s) =
     (if getProperty (managersCache s) k = Undefined then
        (case getProperty (profilesCache s) k of
           Promise pp \<Rightarrow>
             thenCatch (nextPromise s) ProfilesCache (nextPromise s)
               (thenCatch pp ManagersCache (nextPromise s)
                  ((snd (getManagerInternal k s))\<lparr>managersCache := (managersCache s)(k \<mapsto> nextPromise s)\<rparr>))
         | Undefined \<Rightarrow>
             thenCatch (nextPromise s) ProfilesCache (nextPromise s)
               ((snd (getManagerInternal k s))\<lparr>managersCache := (managersCache s)(k \<mapsto> nextPromise s)\<rparr>)
         | Inherited \<Rightarrow>
             (snd (getManagerInternal k s))\<lparr>managersCache := (managersCache s)(k \<mapsto> nextPromise s)\<rparr>)
      else s)"
  by (simp add: getManager_def getManagerInternal_def cacheByIdOrEmail_def Let_def
      split: property.splits)

lemma getDirects_state:
  "snd (getDirects k s) =
     (if getProperty (directsCache s) k = Undefined then
        (case getProperty (profilesCache s) k of
           Promise pp \<Rightarrow>
             (thenCatch pp DirectsCache (nextPromise s)
                ((snd (getDirectsInternal k s))\<lparr>directsCache := (directsCache s)(k \<mapsto> nextPromise s)\<rparr>))
               \<lparr>seeding := seeding s @ [nextPromise s]\<rparr>
         | Undefined \<Rightarrow>
             (snd (getDirectsInternal k s))\<lparr>directsCache := (directsCache s)(k \<mapsto> nextPromise s),
                                            seeding := seeding s @ [nextPromise s]\<rparr>
         | Inherited \<Rightarrow>
             (snd (getDirectsInternal k s))\<lparr>directsCache := (directsCache s)(k \<mapsto> nextPromise s)\<rparr>)
      else s)"
  by (simp add: getDirects_def getDirectsInternal_def cacheByIdOrEmail_def Let_def
      split: property.splits)

text \<open>What each public operation returns.\<close>

lemma resolveProfile_returns:
  "fst (resolveProfile k s) =
     (if getProperty (profilesCache s) k = Undefined then Inr (Promise (nextPromise s))
      else Inr (getProperty (profilesCache s) k))"
  by (simp add: resolveProfile_def resolveProfileInternal_def enqueueRequest_def processBatch_def
      cacheByIdOrEmail_def Let_def split_def)

lemma getPhotoUrl_returns:
  "fst (getPhotoUrl k s) =
     (if getProperty (photosCache s) k = Undefined then
        (if getProperty (profilesCache s) k = Inherited then Inl TypeError
         else Inr (Promise (nextPromise s)))
      else Inr (getProperty (photosCache s) k))"
  by (simp add: getPhotoUrl_def getPhotoUrlInternal_def cacheByIdOrEmail_def Let_def
      split: property.splits)

lemma getManager_returns:
  "fst (getManager k s) =
     (if getProperty (managersCache s) k = Undefined then
        (if getProperty (profilesCache s) k = Inherited then Inl TypeError
         else Inr (Promise (nextPromise s)))
      else Inr (getProperty (managersCache s) k))"
  by (simp add: getManager_def getManagerInternal_def cacheByIdOrEmail_def Let_def
      split: property.splits)

lemma getDirects_returns:
  "fst (getDirects k s) =
     (if getProperty (directsCache s) k = Undefined then
        (if getProperty (profilesCache s) k = Inherited then Inl TypeError
         else Inr (Promise (nextPromise s)))
      else Inr (getProperty (directsCache s) k))"
  by (simp add: getDirects_def getDirectsInternal_def cacheByIdOrEmail_def Let_def
      split: property.splits)

subsection \<open>A cache miss starts one fetcher and stores its pending promise\<close>

text \<open>
  \<^verbatim>\<open>fresh_ids\<close> says that the promises in the log of fetchers were all made before the next
  one: it holds in every state the module can reach (\<^verbatim>\<open>fresh_ids_run\<close> below).
\<close>

lemma fresh_ids_map_of: "fresh_ids s \<Longrightarrow> map_of (started s) (nextPromise s) = None"
  by (auto simp: fresh_ids_def list_all_iff map_of_eq_None_iff)

lemma getManager_miss:
  assumes "getProperty (managersCache s) k = Undefined" "fresh_ids s"
  shows "managersCache (snd (getManager k s)) k = Some (nextPromise s)"
    and "profilePromises (snd (getManager k s)) (nextPromise s) = Pending"
    and "map_of (started (snd (getManager k s))) (nextPromise s) = Some (GetManagerInternal, k)"
  using assms fresh_ids_map_of[OF assms(2)]
  by (simp_all add: getManager_state getManagerInternal_def Let_def map_add_def
      split: property.splits)

lemma getPhotoUrl_miss:
  assumes "getProperty (photosCache s) k = Undefined" "fresh_ids s"
  shows "photosCache (snd (getPhotoUrl k s)) k = Some (nextPromise s)"
    and "photoPromises (snd (getPhotoUrl k s)) (nextPromise s) = Pending"
    and "map_of (started (snd (getPhotoUrl k s))) (nextPromise s) = Some (GetPhotoUrlInternal, k)"
  using assms fresh_ids_map_of[OF assms(2)]
  by (simp_all add: getPhotoUrl_state getPhotoUrlInternal_def Let_def map_add_def
      split: property.splits)

lemma getDirects_miss:
  assumes "getProperty (directsCache s) k = Undefined" "fresh_ids s"
  shows "directsCache (snd (getDirects k s)) k = Some (nextPromise s)"
    and "directsPromises (snd (getDirects k s)) (nextPromise s) = Pending"
    and "map_of (started (snd (getDirects k s))) (nextPromise s) = Some (GetDirectsInternal, k)"
  using assms fresh_ids_map_of[OF assms(2)]
  by (simp_all add: getDirects_state getDirectsInternal_def Let_def map_add_def
      split: property.splits)

text \<open>
  An operation that returns a promise for a key that had no entry has missed, and the promise
  is the one its fetcher made.
\<close>

lemma returned_promise_is_new:
  "managersCache s k = None \<Longrightarrow> fst (getManager k s) = Inr (Promise f) \<Longrightarrow>
     getProperty (managersCache s) k = Undefined \<and> f = nextPromise s"
  "photosCache s k = None \<Longrightarrow> fst (getPhotoUrl k s) = Inr (Promise f) \<Longrightarrow>
     getProperty (photosCache s) k = Undefined \<and> f = nextPromise s"
  "directsCache s k = None \<Longrightarrow> fst (getDirects k s) = Inr (Promise f) \<Longrightarrow>
     getProperty (directsCache s) k = Undefined \<and> f = nextPromise s"
  "profilesCache s k = None \<Longrightarrow> fst (resolveProfile k s) = Inr (Promise f) \<Longrightarrow>
     getProperty (profilesCache s) k = Undefined \<and> f = nextPromise s"
  by (auto simp: getManager_returns getPhotoUrl_returns getDirects_returns resolveProfile_returns
      getProperty_Promise split: if_splits)

subsection \<open>Evaluating a run\<close>

text \<open>The definitions that evaluate a run on concrete events.\<close>

lemmas run_defs =
  run_def initial_def resolveProfile_def resolveProfileInternal_def enqueueRequest_def
  getPhotoUrl_def getPhotoUrlInternal_def getManager_def getManagerInternal_def
  getDirects_def getDirectsInternal_def
  getProperty_def objectPrototype_def promisePrototype_def
  cacheByIdOrEmail_def thenCatch_def runCallback_def runMicrotask_def continue_def drain_def
  processBatch_def batchDone_def processBatch_rest_def processResponse_def
  rejectAll_def ok_def batchOk_def notFound_def person_def
  onResolve_def onReject_def resume_def settleProfile_def settlePhoto_def settleDirects_def seedDirect_def
  managerDone_def photoDone_def directsDone_def
  resolveProfileInternal_result_def getManagerInternal_result_def getPhotoUrlInternal_result_def
  getDirectsInternal_result_def buildProfile_def buildErrorFromResponse_def Error_def TypeError_def
  first_or_undefined_def strict_neq_def
  cacheByIdOrEmail_then_def store_def key_of_def truthy_def settled_def string_of_nat.simps digit_def Let_def

subsection \<open>Classification of a 404\<close>

lemma buildErrorFromResponse_404:
  "status r = 404 \<Longrightarrow> buildErrorFromResponse r = \<lparr>name = ''NotFound'', message = statusText r\<rparr>"
  by (simp add: buildErrorFromResponse_def Error_def)

lemma not_ok_404: "status r = 404 \<Longrightarrow> \<not> ok r"
  by (simp add: ok_def)

text \<open>
  The three direct fetchers name a 404: when the key misses and the response to the request
  has status 404, the promise of the fetcher, which the operation has stored under the key,
  is rejected with an error named \<^verbatim>\<open>NotFound\<close>.
\<close>

lemma direct_fetchers_classify_404:
  assumes "fresh_ids s"
  shows "getProperty (managersCache s) k = Undefined \<Longrightarrow> status rm = 404 \<Longrightarrow>
           profilePromises (managerDone (nextPromise s) (Fetched rm) (snd (getManager k s))) (nextPromise s)
             = Rejected \<lparr>name = ''NotFound'', message = statusText rm\<rparr>"
    and "getProperty (photosCache s) k = Undefined \<Longrightarrow> status rp = 404 \<Longrightarrow>
           photoPromises (photoDone (nextPromise s) (Fetched rp) (snd (getPhotoUrl k s))) (nextPromise s)
             = Rejected \<lparr>name = ''NotFound'', message = statusText rp\<rparr>"
    and "getProperty (directsCache s) k = Undefined \<Longrightarrow> status rd = 404 \<Longrightarrow>
           directsPromises (directsDone (nextPromise s) (Fetched rd) (snd (getDirects k s))) (nextPromise s)
             = Rejected \<lparr>name = ''NotFound'', message = statusText rd\<rparr>"
  using assms
  by (simp_all add: getManager_miss managerDone_def settleProfile_promises getManagerInternal_result_def
      getPhotoUrl_miss photoDone_def settlePhoto_promises getPhotoUrlInternal_result_def
      getDirects_miss directsDone_def settleDirects_promises getDirectsInternal_result_def
      not_ok_404 buildErrorFromResponse_404 settled_def)

text \<open>
  \<^verbatim>\<open>resolveProfileInternal\<close> does not: for an item of the batch response with a status of 400 or
  more it throws an error named \<^verbatim>\<open>Error\<close>, whose message is the message of the service when the
  item has one that is not empty, and the status otherwise.
\<close>

lemma resolveProfileInternal_never_names:
  assumes "400 \<le> resp_status res"
  shows "resolveProfileInternal_result res =
           Inl \<lparr>name = ''Error'',
                message = (case resp_body res of
                             None \<Rightarrow> string_of_nat (resp_status res)
                           | Some data \<Rightarrow>
                               if truthy (d_error_message data) then the (d_error_message data)
                               else string_of_nat (resp_status res))\<rparr>"
  using assms by (simp add: resolveProfileInternal_result_def Error_def split: option.splits)

text \<open>
  When the batch call itself is answered by a 404, \<^verbatim>\<open>processResponse\<close> throws the error of
  \<^verbatim>\<open>buildErrorFromResponse\<close> and the requests of the batch are rejected with it: in that case
  the promise of \<^verbatim>\<open>resolveProfile\<close> is rejected with an error named \<^verbatim>\<open>NotFound\<close>.
\<close>

lemma batch_404_rejects_with_NotFound:
  "profilePromises (run [ResolveProfile ''nobody'', TimerFired, BatchDone 0 (Fetched notFound)] initial) 0
     = Rejected \<lparr>name = ''NotFound'', message = ''Not Found''\<rparr>"
  by (simp add: run_defs)

text \<open>
  C1 does not hold of \<^verbatim>\<open>resolveProfile\<close>, and the code is at fault: its three sibling operations
  name the failure \<^verbatim>\<open>NotFound\<close> (\<^verbatim>\<open>direct_fetchers_classify_404\<close>), and \<^verbatim>\<open>getAllManagers\<close> tells a
  missing entity from other failures by that name. The profile of \<^verbatim>\<open>nobody\<close> is requested on the
  empty module (promise 0, request 1), the batch is sent, and the response is OK with the
  item of request 1 at status 404, carrying the error object of the service. The promise that
  \<^verbatim>\<open>resolveProfile\<close> returned is rejected with an error named \<^verbatim>\<open>Error\<close>, not \<^verbatim>\<open>NotFound\<close>; the same
  user asked for through \<^verbatim>\<open>getManager\<close> and answered by a 404 gives an error named \<^verbatim>\<open>NotFound\<close>.
\<close>

theorem resolveProfile_404_is_not_NotFound:
  "getProperty (profilesCache initial) ''nobody'' = Undefined
   \<and> fst (resolveProfile ''nobody'' initial) = Inr (Promise 0)
   \<and> resp_status (itemNotFound ''1'') = 404
   \<and> profilePromises
       (run [ResolveProfile ''nobody'', TimerFired, BatchDone 0 (batchOk [itemNotFound ''1''])] initial) 0
     = Rejected \<lparr>name = ''Error'', message = ''Resource not found''\<rparr>
   \<and> fst (getManager ''nobody'' initial) = Inr (Promise 0)
   \<and> profilePromises (run [GetManager ''nobody'', ManagerDone 0 (Fetched notFound)] initial) 0
     = Rejected \<lparr>name = ''NotFound'', message = ''Not Found''\<rparr>"
  by (simp add: itemNotFound_def run_defs)

subsection \<open>Direct reports\<close>

lemma strict_neq_false: "strict_neq (d_accountEnabled p) (JBool False) = (\<not> marked_disabled p)"
  by (cases "d_accountEnabled p") (auto simp: strict_neq_def marked_disabled_def)

text \<open>
  C10. When the key has no entry, \<^verbatim>\<open>getDirects\<close> returns a promise, and the direct-reports
  request is answered by a successful response, that promise is fulfilled with the profiles
  of exactly the entries that are not marked disabled, in order; an entry is marked disabled
  only when its \<^verbatim>\<open>accountEnabled\<close> is the boolean \<^verbatim>\<open>false\<close>, so an entry where the field is absent
  or \<^verbatim>\<open>null\<close> is kept.
\<close>

theorem getDirects_keeps_all_but_disabled:
  assumes "fresh_ids s" and "directsCache s k = None"
    and "getDirects k s = (Inr (Promise f), s1)"
    and "ok response" and "content response = Inr entries"
  shows "directsPromises (directsDone f (Fetched response) s1) f
         = Fulfilled (map buildProfile (filter (\<lambda>p. \<not> marked_disabled p) entries))
       \<and> (\<forall>p \<in> set entries. marked_disabled p \<longleftrightarrow> d_accountEnabled p = JBool False)
       \<and> (\<forall>p \<in> set entries. d_accountEnabled p \<in> {JUndefined, JNull} \<longrightarrow> \<not> marked_disabled p)"
proof -
  have miss: "getProperty (directsCache s) k = Undefined" and f: "f = nextPromise s"
    using returned_promise_is_new(3)[OF assms(2), of f] assms(3) by simp_all
  have s1: "s1 = snd (getDirects k s)" using assms(3) by simp
  have "getDirectsInternal_result (Fetched response)
          = Inr (map buildProfile (filter (\<lambda>p. \<not> marked_disabled p) entries))"
    using assms(4,5) by (simp add: getDirectsInternal_result_def strict_neq_false)
  then have "directsPromises (directsDone f (Fetched response) s1) f
         = Fulfilled (map buildProfile (filter (\<lambda>p. \<not> marked_disabled p) entries))"
    unfolding f s1 using assms(1) miss
    by (simp add: getDirects_miss directsDone_def settleDirects_promises settled_def)
  moreover have "\<forall>p \<in> set entries. marked_disabled p \<longleftrightarrow> d_accountEnabled p = JBool False"
    by (auto simp: marked_disabled_def split: jsval.splits)
  moreover have "\<forall>p \<in> set entries. d_accountEnabled p \<in> {JUndefined, JNull} \<longrightarrow> \<not> marked_disabled p"
    by (auto simp: marked_disabled_def)
  ultimately show ?thesis by blast
qed

text \<open>
  C10, witness: five entries whose \<^verbatim>\<open>accountEnabled\<close> is absent, \<^verbatim>\<open>false\<close>, \<^verbatim>\<open>null\<close>, \<^verbatim>\<open>true\<close> and
  the number 0; only the second is left out.
\<close>

theorem getDirects_keeps_all_but_disabled_witness:
  "fresh_ids initial \<and> directsCache initial ''boss'' = None
   \<and> fst (getDirects ''boss'' initial) = Inr (Promise 0)
   \<and> ok (okResponse [entry ''a'' JUndefined, entry ''b'' (JBool False), entry ''c'' JNull,
                      entry ''d'' (JBool True), entry ''e'' (JNum 0)])
   \<and> directsPromises
        (directsDone 0
           (Fetched (okResponse [entry ''a'' JUndefined, entry ''b'' (JBool False), entry ''c'' JNull,
                                 entry ''d'' (JBool True), entry ''e'' (JNum 0)]))
           (snd (getDirects ''boss'' initial))) 0
      = Fulfilled (map buildProfile [entry ''a'' JUndefined, entry ''c'' JNull,
                                     entry ''d'' (JBool True), entry ''e'' (JNum 0)])"
proof -
  let ?es = "[entry ''a'' JUndefined, entry ''b'' (JBool False), entry ''c'' JNull,
              entry ''d'' (JBool True), entry ''e'' (JNum 0)]"
  have a1: "fresh_ids initial" by (simp add: fresh_ids_def initial_def)
  have a2: "directsCache initial ''boss'' = None" by (simp add: initial_def)
  have r: "fst (getDirects ''boss'' initial) = Inr (Promise 0)" by (simp add: run_defs)
  then have a3: "getDirects ''boss'' initial = (Inr (Promise 0), snd (getDirects ''boss'' initial))"
    by (metis prod.collapse)
  have a4: "ok (okResponse ?es)" by (simp add: okResponse_def ok_def)
  have a5: "content (okResponse ?es) = Inr ?es" by (simp add: okResponse_def)
  have "filter (\<lambda>p. \<not> marked_disabled p) ?es
          = [entry ''a'' JUndefined, entry ''c'' JNull, entry ''d'' (JBool True), entry ''e'' (JNum 0)]"
    by (simp add: marked_disabled_def entry_def)
  then show ?thesis
    using getDirects_keeps_all_but_disabled [OF a1 a2 a3 a4 a5] a1 a2 r a4 by simp
qed

subsection \<open>Rejections and the caches\<close>

lemma caches_settleProfile_reject: "caches (settleProfile f (Inl e) s) = caches s"
  by (simp add: settleProfile_def caches_def Let_def)

lemma caches_onReject: "caches (onReject p e s) = caches s"
  using caches_settleProfile_reject
  by (simp add: onReject_def resume_def caches_def Let_def split: option.splits)

lemma caches_rejectAll: "caches (rejectAll e pq s) = caches s"
  unfolding rejectAll_def
  by (induction pq arbitrary: s) (simp_all add: caches_onReject split: prod.splits)

text \<open>
  The settling of a promise by a rejection writes to no cache: whichever promise is rejected
  (a profile, a photo, a list of direct reports, a request of the batcher, or a whole batch
  by a transport or token failure), the four caches are exactly as before.
\<close>

lemma rejection_writes_no_cache:
  "caches (settleProfile f (Inl e) s) = caches s"
  "caches (settlePhoto g (Inl e) s) = caches s"
  "caches (settleDirects h (Inl e) s) = caches s"
  "caches (onReject p e s) = caches s"
  "caches (batchDone i (FetchFailed e) s) = caches s"
  "caches (batchDone i (AuthFailed e) s) = caches s"
proof -
  show "caches (settlePhoto g (Inl e) s) = caches s"
    by (simp add: caches_def)
  show "caches (settleDirects h (Inl e) s) = caches s"
    by (simp add: caches_def)
  show "caches (batchDone i (FetchFailed e) s) = caches s"
    using caches_rejectAll[of e "processingQueue (inflight s ! i)"
        "s\<lparr>inflight := take i (inflight s) @ drop (Suc i) (inflight s),
           finishing := awaitedBy (inflight s ! i)\<rparr>"]
    by (simp add: batchDone_def processBatch_rest_def caches_def)
  show "caches (batchDone i (AuthFailed e) s) = caches s"
    by (simp add: batchDone_def processBatch_rest_def caches_def split: option.splits)
qed (rule caches_settleProfile_reject caches_onReject)+

text \<open>
  C5 does not hold, and the code is at fault: the \<^verbatim>\<open>catch\<close> of \<^verbatim>\<open>cacheByIdOrEmail\<close> says that errors
  are not cached, but \<^verbatim>\<open>then\<close> and \<^verbatim>\<open>catch\<close> are attached to the profile promise, not to the value
  that is stored. On the empty module the profile of \<^verbatim>\<open>a@x\<close> is being resolved (promise 0) when
  its photo is asked for (promise 2, which \<^verbatim>\<open>getPhotoUrl\<close> registers on promise 0). The photo
  request is answered by a 404: promise 2 is rejected, and is stored under no other key at
  that point. Then the batch brings the profile, with id \<^verbatim>\<open>id1\<close>: the rejected promise 2 is
  written under \<^verbatim>\<open>id1\<close> in the photo cache, and \<^verbatim>\<open>getPhotoUrl\<close> by \<^verbatim>\<open>id1\<close> returns it without a
  request of its own.
\<close>

theorem failed_photo_is_cross_indexed:
  "fst (getPhotoUrl ''a@x'' (run [ResolveProfile ''a@x''] initial)) = Inr (Promise 2)
   \<and> photoPromises
       (run [ResolveProfile ''a@x'', GetPhotoUrl ''a@x'', PhotoDone 2 (Fetched notFound)] initial) 2
       = Rejected \<lparr>name = ''NotFound'', message = ''Not Found''\<rparr>
   \<and> photosCache
       (run [ResolveProfile ''a@x'', GetPhotoUrl ''a@x'', PhotoDone 2 (Fetched notFound)] initial) ''id1''
       = None
   \<and> photosCache
       (run [ResolveProfile ''a@x'', GetPhotoUrl ''a@x'', PhotoDone 2 (Fetched notFound), TimerFired,
             BatchDone 0 (batchOk [found ''1'' (person ''id1'' (Some ''a@x''))])] initial) ''id1''
       = Some 2
   \<and> fst (getPhotoUrl ''id1''
       (run [ResolveProfile ''a@x'', GetPhotoUrl ''a@x'', PhotoDone 2 (Fetched notFound), TimerFired,
             BatchDone 0 (batchOk [found ''1'' (person ''id1'' (Some ''a@x''))])] initial))
       = Inr (Promise 2)
   \<and> started (snd (getPhotoUrl ''id1''
       (run [ResolveProfile ''a@x'', GetPhotoUrl ''a@x'', PhotoDone 2 (Fetched notFound), TimerFired,
             BatchDone 0 (batchOk [found ''1'' (person ''id1'' (Some ''a@x''))])] initial)))
       = [(0, ResolveProfileInternal, ''a@x''), (2, GetPhotoUrlInternal, ''a@x'')]"
  by (simp add: found_def run_defs)

subsection \<open>Settling the requests of a batch\<close>

lemma resume_frame [simp]: "batchPromises (resume p r s) = batchPromises s"
  by (simp add: resume_def Let_def split: option.splits)

lemma onResolve_promises:
  "batchPromises (onResolve p res s) =
     (if batchPromises s p = Pending then (batchPromises s)(p := Fulfilled res) else batchPromises s)"
  by (simp add: onResolve_def)

lemma onReject_promises:
  "batchPromises (onReject p e s) =
     (if batchPromises s p = Pending then (batchPromises s)(p := Rejected e) else batchPromises s)"
  by (simp add: onReject_def)

lemma rejectAll_promises:
  "batchPromises (rejectAll e pq s) q =
     (if q \<in> (req_promise \<circ> snd) ` set pq \<and> batchPromises s q = Pending
      then Rejected e else batchPromises s q)"
  unfolding rejectAll_def
  by (induction pq arbitrary: s) (auto simp: onReject_promises split: prod.splits)

lemma promises_distinct_inj:
  assumes "promises_distinct pq" "map_of pq i = Some a" "map_of pq j = Some b"
    "req_promise a = req_promise b"
  shows "i = j"
proof -
  have ia: "(i, a) \<in> set pq" and jb: "(j, b) \<in> set pq"
    using assms(2,3) by (auto dest: map_of_SomeD)
  have inj: "inj_on (req_promise \<circ> snd) (set pq)"
    using assms(1) by (simp add: promises_distinct_def distinct_map)
  have eq: "(req_promise \<circ> snd) (i, a) = (req_promise \<circ> snd) (j, b)"
    using assms(4) by simp
  have "(i, a) = (j, b)"
    using inj_onD[OF inj eq ia jb] .
  then show ?thesis by simp
qed

lemma dispatch_ok: "ids_known pq rs \<Longrightarrow> fst (dispatch rs pq s) = Inr ()"
  by (induction rs arbitrary: s) (auto simp: ids_known_def split: option.splits)

lemma dispatch_promises:
  assumes "promises_distinct pq" "ids_known pq rs" "map_of pq i = Some req"
  shows "batchPromises (snd (dispatch rs pq s)) (req_promise req) =
     (if batchPromises s (req_promise req) = Pending
      then (case find (\<lambda>r. resp_id r = i) rs of Some r \<Rightarrow> Fulfilled r | None \<Rightarrow> Pending)
      else batchPromises s (req_promise req))"
  using assms(2)
proof (induction rs arbitrary: s)
  case Nil
  then show ?case by simp
next
  case (Cons r rs)
  from Cons.prems obtain q where q: "map_of pq (resp_id r) = Some q" and k: "ids_known pq rs"
    by (auto simp: ids_known_def)
  show ?case
  proof (cases "resp_id r = i")
    case True
    then have "q = req" using q assms(3) by simp
    then show ?thesis using True q Cons.IH[OF k] by (simp add: onResolve_promises)
  next
    case False
    then have "req_promise q \<noteq> req_promise req"
      using promises_distinct_inj[OF assms(1) q assms(3)] by auto
    then show ?thesis using False q Cons.IH[OF k] by (simp add: onResolve_promises)
  qed
qed

lemma find_unique:
  "distinct (map f xs) \<Longrightarrow> x \<in> set xs \<Longrightarrow> find (\<lambda>y. f y = f x) xs = Some x"
  by (induction xs) (auto simp: image_iff)

text \<open>
  C7. Take a snapshot whose requests have distinct promises, all pending, and response
  entries \<^verbatim>\<open>rs\<close> with distinct ids that are ids of the snapshot. For a successful response
  that carries the entries in any order \<^verbatim>\<open>rs'\<close>, \<^verbatim>\<open>processResponse\<close> ends without error and the
  promise of each request is fulfilled with the entry that has its id. The conditions on
  the snapshot hold for every batch in flight in a state the module can reach
  (\<^verbatim>\<open>inflight_wf\<close> below).
\<close>

theorem id_based_dispatch:
  assumes "ids_known pq rs" and "distinct (map resp_id rs)" and "promises_distinct pq"
    and "list_all (\<lambda>e. batchPromises s (req_promise (snd e)) = Pending) pq"
    and "mset rs' = mset rs" and "ok response" and "content response = Inr rs'"
  shows "fst (processResponse response pq s) = Inr ()
       \<and> (\<forall>r \<in> set rs. \<forall>req. map_of pq (resp_id r) = Some req \<longrightarrow>
            batchPromises (snd (processResponse response pq s)) (req_promise req) = Fulfilled r)"
proof -
  have set_eq: "set rs' = set rs" using assms(5) by (rule mset_eq_setD)
  have k: "ids_known pq rs'"
    using assms(1) set_eq by (simp add: ids_known_def list_all_iff)
  have d: "distinct (map resp_id rs')"
  proof -
    have "mset (map resp_id rs') = mset (map resp_id rs)" using assms(5) by simp
    then show ?thesis using assms(2) by (metis mset_eq_imp_distinct_iff)
  qed
  have pr: "processResponse response pq s = dispatch rs' pq s"
    using assms(6,7) by (simp add: processResponse_def)
  have "batchPromises (snd (dispatch rs' pq s)) (req_promise req) = Fulfilled r"
    if "r \<in> set rs" and m: "map_of pq (resp_id r) = Some req" for r req
  proof -
    have "(resp_id r, req) \<in> set pq" using m by (rule map_of_SomeD)
    then have "batchPromises s (req_promise req) = Pending"
      using assms(4) by (auto simp: list_all_iff)
    moreover have "find (\<lambda>y. resp_id y = resp_id r) rs' = Some r"
      using d that(1) set_eq by (simp add: find_unique)
    ultimately show ?thesis
      using dispatch_promises[OF assms(3) k m, of s] by simp
  qed
  then show ?thesis using pr dispatch_ok[OF k] by simp
qed

text \<open>Three profiles are requested and the timer fires: one batch of three is in flight.\<close>

lemma three_pending_queue:
  "inflight three_pending =
     [\<lparr>processingQueue =
         [(''1'', \<lparr>req_id = ''1'', req_url = ''/users/a?$select='' @ profileFields, req_method = ''GET'', req_promise = 1\<rparr>),
          (''2'', \<lparr>req_id = ''2'', req_url = ''/users/b?$select='' @ profileFields, req_method = ''GET'', req_promise = 3\<rparr>),
          (''3'', \<lparr>req_id = ''3'', req_url = ''/users/c?$select='' @ profileFields, req_method = ''GET'', req_promise = 5\<rparr>)],
       awaitedBy = None\<rparr>]"
  "batchPromises three_pending (Suc 0) = Pending"
  "batchPromises three_pending 3 = Pending"
  "batchPromises three_pending 5 = Pending"
  by (simp_all add: three_pending_def run_defs)

text \<open>
  C7, witness: the response to the batch of three carries its entries in reverse order, and
  each request is settled with its own entry.
\<close>

theorem id_based_dispatch_witness:
  "ids_known (processingQueue (inflight three_pending ! 0)) [batchItem ''1'' ''a'', batchItem ''2'' ''b'', batchItem ''3'' ''c'']
   \<and> distinct (map resp_id [batchItem ''1'' ''a'', batchItem ''2'' ''b'', batchItem ''3'' ''c''])
   \<and> promises_distinct (processingQueue (inflight three_pending ! 0))
   \<and> list_all (\<lambda>e. batchPromises three_pending (req_promise (snd e)) = Pending)
        (processingQueue (inflight three_pending ! 0))
   \<and> mset [batchItem ''3'' ''c'', batchItem ''2'' ''b'', batchItem ''1'' ''a''] = mset [batchItem ''1'' ''a'', batchItem ''2'' ''b'', batchItem ''3'' ''c'']
   \<and> ok (okResponse [batchItem ''3'' ''c'', batchItem ''2'' ''b'', batchItem ''1'' ''a''])
   \<and> batchPromises (snd (processResponse (okResponse [batchItem ''3'' ''c'', batchItem ''2'' ''b'', batchItem ''1'' ''a''])
                            (processingQueue (inflight three_pending ! 0)) three_pending)) 1 = Fulfilled (batchItem ''1'' ''a'')
   \<and> batchPromises (snd (processResponse (okResponse [batchItem ''3'' ''c'', batchItem ''2'' ''b'', batchItem ''1'' ''a''])
                            (processingQueue (inflight three_pending ! 0)) three_pending)) 3 = Fulfilled (batchItem ''2'' ''b'')
   \<and> batchPromises (snd (processResponse (okResponse [batchItem ''3'' ''c'', batchItem ''2'' ''b'', batchItem ''1'' ''a''])
                            (processingQueue (inflight three_pending ! 0)) three_pending)) 5 = Fulfilled (batchItem ''3'' ''c'')"
  using id_based_dispatch [of "processingQueue (inflight three_pending ! 0)"
      "[batchItem ''1'' ''a'', batchItem ''2'' ''b'', batchItem ''3'' ''c'']" three_pending
      "[batchItem ''3'' ''c'', batchItem ''2'' ''b'', batchItem ''1'' ''a'']"
      "okResponse [batchItem ''3'' ''c'', batchItem ''2'' ''b'', batchItem ''1'' ''a'']"]
  by (simp add: three_pending_queue ids_known_def promises_distinct_def okResponse_def ok_def batchItem_def
      add_mset_commute)

lemma onResolve_settled: "batchPromises s p \<noteq> Pending \<Longrightarrow> onResolve p r s = s"
  by (simp add: onResolve_def)

lemma onReject_settled: "batchPromises s p \<noteq> Pending \<Longrightarrow> onReject p e s = s"
  by (simp add: onReject_def)

lemma in_queue_promise:
  "map_of pq j = Some req \<Longrightarrow> req_promise req \<in> (req_promise \<circ> snd) ` set pq"
  by (force dest: map_of_SomeD)

lemma processBatch_rest_failed:
  assumes "map_of (processingQueue b) j = Some req" "batchPromises s (req_promise req) = Pending"
  shows "batchPromises (processBatch_rest (FetchFailed e) b s) (req_promise req) = Rejected e"
    and "\<not> ok response \<Longrightarrow>
           batchPromises (processBatch_rest (Fetched response) b s) (req_promise req)
             = Rejected (buildErrorFromResponse response)"
    and "ok response \<Longrightarrow> content response = Inl e \<Longrightarrow>
           batchPromises (processBatch_rest (Fetched response) b s) (req_promise req) = Rejected e"
  using assms in_queue_promise[OF assms(1)]
  by (simp_all add: processBatch_rest_def processResponse_def rejectAll_promises)

lemma processBatch_rest_ok:
  assumes "map_of (processingQueue b) j = Some req" "batchPromises s (req_promise req) = Pending"
    and "ok response" "content response = Inr rs"
    and "ids_known (processingQueue b) rs" "promises_distinct (processingQueue b)"
  shows "batchPromises (processBatch_rest (Fetched response) b s) (req_promise req)
           = (case find (\<lambda>r. resp_id r = j) rs of Some r \<Rightarrow> Fulfilled r | None \<Rightarrow> Pending)"
proof -
  have "processResponse response (processingQueue b) s = dispatch rs (processingQueue b) s"
    using assms(3,4) by (simp add: processResponse_def)
  moreover have "fst (dispatch rs (processingQueue b) s) = Inr ()"
    using assms(5) by (rule dispatch_ok)
  ultimately have "processBatch_rest (Fetched response) b s = snd (dispatch rs (processingQueue b) s)"
    by (cases "dispatch rs (processingQueue b) s") (auto simp: processBatch_rest_def)
  then show ?thesis
    using dispatch_promises[OF assms(6,5,1), of s] assms(2) by simp
qed

text \<open>
  C6 (as amended). Take a batch in flight and a request of its snapshot whose promise is
  pending. When the batch call fails, by a transport failure, a response that is not OK or
  a body that cannot be read, the promise is rejected with that same failure. When the
  response is OK and every entry carries an id of the snapshot, the promise is fulfilled
  with the first entry that carries the id of the request, and stays pending when no entry
  does. A promise that is settled is never settled again: both callbacks of a settled
  request leave the state as it is.
\<close>

theorem batch_settles_each_request_at_most_once:
  assumes "i < length (inflight s)"
    and "map_of (processingQueue (inflight s ! i)) j = Some req"
    and "batchPromises s (req_promise req) = Pending"
  shows "batchPromises (batchDone i (FetchFailed e) s) (req_promise req) = Rejected e
       \<and> (\<not> ok response \<longrightarrow>
            batchPromises (batchDone i (Fetched response) s) (req_promise req)
              = Rejected (buildErrorFromResponse response))
       \<and> (ok response \<and> content response = Inl e \<longrightarrow>
            batchPromises (batchDone i (Fetched response) s) (req_promise req) = Rejected e)
       \<and> (ok response \<and> content response = Inr rs
            \<and> ids_known (processingQueue (inflight s ! i)) rs
            \<and> promises_distinct (processingQueue (inflight s ! i)) \<longrightarrow>
            batchPromises (batchDone i (Fetched response) s) (req_promise req)
              = (case find (\<lambda>r. resp_id r = j) rs of Some r \<Rightarrow> Fulfilled r | None \<Rightarrow> Pending))
       \<and> (batchPromises s p \<noteq> Pending \<longrightarrow> onResolve p r s = s \<and> onReject p e s = s)"
proof -
  let ?b = "inflight s ! i"
  let ?s = "s\<lparr>inflight := take i (inflight s) @ drop (Suc i) (inflight s),
               finishing := awaitedBy (inflight s ! i)\<rparr>"
  have pend: "batchPromises ?s (req_promise req) = Pending" using assms(3) by simp
  have bd: "batchPromises (batchDone i net s) = batchPromises (processBatch_rest net ?b ?s)" for net
    using assms(1) by (simp add: batchDone_def)
  have a: "batchPromises (batchDone i (FetchFailed e) s) (req_promise req) = Rejected e"
    unfolding bd using processBatch_rest_failed(1)[OF assms(2) pend] .
  have b: "\<not> ok response \<longrightarrow>
            batchPromises (batchDone i (Fetched response) s) (req_promise req)
              = Rejected (buildErrorFromResponse response)"
    unfolding bd using processBatch_rest_failed(2)[OF assms(2) pend] by blast
  have c: "ok response \<and> content response = Inl e \<longrightarrow>
            batchPromises (batchDone i (Fetched response) s) (req_promise req) = Rejected e"
    unfolding bd using processBatch_rest_failed(3)[OF assms(2) pend] by blast
  have d: "ok response \<and> content response = Inr rs
            \<and> ids_known (processingQueue (inflight s ! i)) rs
            \<and> promises_distinct (processingQueue (inflight s ! i)) \<longrightarrow>
            batchPromises (batchDone i (Fetched response) s) (req_promise req)
              = (case find (\<lambda>r. resp_id r = j) rs of Some r \<Rightarrow> Fulfilled r | None \<Rightarrow> Pending)"
    unfolding bd using processBatch_rest_ok[OF assms(2) pend] by blast
  have once: "batchPromises s p \<noteq> Pending \<longrightarrow> onResolve p r s = s \<and> onReject p e s = s"
    by (simp add: onResolve_settled onReject_settled)
  from a b c d once show ?thesis by blast
qed

text \<open>
  C6, witness: the batch of three fails in transport and all three requests are rejected
  with that failure; answered with entries for the requests 3 and 1, request 3 is fulfilled.
\<close>

theorem batch_settles_each_request_at_most_once_witness:
  "0 < length (inflight three_pending)
   \<and> batchPromises (batchDone 0 (FetchFailed (Error ''offline'')) three_pending) 1 = Rejected (Error ''offline'')
   \<and> batchPromises (batchDone 0 (FetchFailed (Error ''offline'')) three_pending) 3 = Rejected (Error ''offline'')
   \<and> batchPromises (batchDone 0 (FetchFailed (Error ''offline'')) three_pending) 5 = Rejected (Error ''offline'')
   \<and> batchPromises (batchDone 0 (Fetched (okResponse [batchItem ''3'' ''c'', batchItem ''1'' ''a''])) three_pending) 5
        = Fulfilled (batchItem ''3'' ''c'')"
proof -
  let ?q = "\<lambda>n p. \<lparr>req_id = n, req_url = ''/users/'' @ p @ ''?$select='' @ profileFields,
                     req_method = ''GET'', req_promise = 5\<rparr>"
  have len: "0 < length (inflight three_pending)" by (simp add: three_pending_queue)
  have q1: "map_of (processingQueue (inflight three_pending ! 0)) ''1'' =
              Some \<lparr>req_id = ''1'', req_url = ''/users/a?$select='' @ profileFields, req_method = ''GET'', req_promise = 1\<rparr>"
    by (simp add: three_pending_queue)
  have q2: "map_of (processingQueue (inflight three_pending ! 0)) ''2'' =
              Some \<lparr>req_id = ''2'', req_url = ''/users/b?$select='' @ profileFields, req_method = ''GET'', req_promise = 3\<rparr>"
    by (simp add: three_pending_queue)
  have q3: "map_of (processingQueue (inflight three_pending ! 0)) ''3'' =
              Some \<lparr>req_id = ''3'', req_url = ''/users/c?$select='' @ profileFields, req_method = ''GET'', req_promise = 5\<rparr>"
    by (simp add: three_pending_queue)
  have p1: "batchPromises three_pending 1 = Pending" by (simp add: three_pending_queue)
  have p2: "batchPromises three_pending 3 = Pending" by (simp add: three_pending_queue)
  have p3: "batchPromises three_pending 5 = Pending" by (simp add: three_pending_queue)
  have k: "ids_known (processingQueue (inflight three_pending ! 0)) [batchItem ''3'' ''c'', batchItem ''1'' ''a'']"
    "promises_distinct (processingQueue (inflight three_pending ! 0))"
    "ok (okResponse [batchItem ''3'' ''c'', batchItem ''1'' ''a''])"
    "content (okResponse [batchItem ''3'' ''c'', batchItem ''1'' ''a'']) = Inr [batchItem ''3'' ''c'', batchItem ''1'' ''a'']"
    by (simp_all add: three_pending_queue ids_known_def promises_distinct_def okResponse_def ok_def batchItem_def)
  show ?thesis
    using len
      batch_settles_each_request_at_most_once [OF len q1, of "Error ''offline''"]
      batch_settles_each_request_at_most_once [OF len q2, of "Error ''offline''"]
      batch_settles_each_request_at_most_once [OF len q3, of "Error ''offline''"
        "okResponse [batchItem ''3'' ''c'', batchItem ''1'' ''a'']" "[batchItem ''3'' ''c'', batchItem ''1'' ''a'']"]
      p1 p2 p3 k
    by (simp add: batchItem_def)
qed

text \<open>
  C6 as stated fails: not every request is settled. Two profiles are requested (requests 1
  and 2, promises 1 and 3) and sent in one batch; the response is OK and carries an entry
  for request 1 only. \<^verbatim>\<open>processBatch\<close> ends, no batch is in flight and the queue is empty, and
  the promise of request 2 is still pending, as is the promise \<^verbatim>\<open>resolveProfile\<close> returned
  for it.
\<close>

theorem request_without_entry_is_never_settled:
  "batchPromises
     (run [ResolveProfile ''a'', ResolveProfile ''b'', TimerFired,
           BatchDone 0 (batchOk [batchItem ''1'' ''a''])] initial) 3 = Pending
   \<and> profilePromises
     (run [ResolveProfile ''a'', ResolveProfile ''b'', TimerFired,
           BatchDone 0 (batchOk [batchItem ''1'' ''a''])] initial) 2 = Pending
   \<and> inflight
     (run [ResolveProfile ''a'', ResolveProfile ''b'', TimerFired,
           BatchDone 0 (batchOk [batchItem ''1'' ''a''])] initial) = []
   \<and> queue
     (run [ResolveProfile ''a'', ResolveProfile ''b'', TimerFired,
           BatchDone 0 (batchOk [batchItem ''1'' ''a''])] initial) = []
   \<and> map (\<lambda>b. map (\<lambda>e. (fst e, req_promise (snd e))) (processingQueue b))
       (inflight (run [ResolveProfile ''a'', ResolveProfile ''b'', TimerFired] initial))
      = [[(''1'', 1), (''2'', 3)]]"
  by (simp add: run_defs batchItem_def)

text \<open>
  The token is acquired after the snapshot is taken and outside the \<^verbatim>\<open>try\<close>: when that fails,
  the batch of three is gone and none of its requests is settled.
\<close>

lemma token_failure_settles_no_request:
  "inflight (batchDone 0 (AuthFailed (Error ''no token'')) three_pending) = []
   \<and> queue (batchDone 0 (AuthFailed (Error ''no token'')) three_pending) = []
   \<and> batchPromises (batchDone 0 (AuthFailed (Error ''no token'')) three_pending) 1 = Pending
   \<and> batchPromises (batchDone 0 (AuthFailed (Error ''no token'')) three_pending) 3 = Pending
   \<and> batchPromises (batchDone 0 (AuthFailed (Error ''no token'')) three_pending) 5 = Pending"
  by (simp add: three_pending_def run_defs)

subsection \<open>Ascending the managers\<close>

lemma started_getManager: "length (started (snd (getManager k s))) \<le> Suc (length (started s))"
  by (simp add: getManager_state getManagerInternal_def Let_def split: property.splits)

lemma started_awaitManager: "length (started (snd (awaitManager net k s))) \<le> Suc (length (started s))"
proof -
  obtain f s1 where g: "getManager k s = (f, s1)" by (cases "getManager k s")
  then have "length (started s1) \<le> Suc (length (started s))"
    using started_getManager[of k s] by simp
  then show ?thesis
    using g by (simp add: awaitManager_def Let_def split: sum.splits property.splits outcome.splits)
qed

lemma managersLoop_bounds:
  "managersLoop net n k res s = (r, s') \<Longrightarrow>
     length (started s') \<le> length (started s) + n
     \<and> (\<forall>ps. r = Inr ps \<longrightarrow> (\<exists>ms. ps = res @ ms \<and> length ms \<le> n))"
proof (induction n arbitrary: k res s)
  case 0
  then show ?case by auto
next
  case (Suc n)
  obtain a s1 where aw: "awaitManager net k s = (a, s1)" by (cases "awaitManager net k s")
  have st: "length (started s1) \<le> Suc (length (started s))"
    using started_awaitManager[of net k s] aw by simp
  show ?case
  proof (cases a)
    case (Inl e)
    then show ?thesis using Suc.prems aw st by (auto split: if_splits)
  next
    case (Inr m)
    then have "managersLoop net n (key_of (profile_id m)) (res @ [m]) s1 = (r, s')"
      using Suc.prems aw by simp
    from Suc.IH[OF this] show ?thesis using st by auto
  qed
qed

lemma managersLoop_NotFound_caught:
  "managersLoop net n k res s = (Inl e, s') \<Longrightarrow> name e \<noteq> ''NotFound''"
proof (induction n arbitrary: k res s)
  case 0
  then show ?case by simp
next
  case (Suc n)
  then show ?case
    by (auto split: prod.splits sum.splits if_splits)
qed

lemma managersLoop_lookups:
  "lookups net k s ps = Some (k', s') \<Longrightarrow> length ps \<le> n \<Longrightarrow>
     managersLoop net n k res s = managersLoop net (n - length ps) k' (res @ ps) s'"
proof (induction ps arbitrary: n k s res)
  case Nil
  then show ?case by simp
next
  case (Cons p ps)
  then obtain n' where n: "n = Suc n'" by (cases n) auto
  obtain a s1 where aw: "awaitManager net k s = (a, s1)" by (cases "awaitManager net k s")
  from Cons.prems(1) aw have a: "a = Inr p" and l: "lookups net (key_of (profile_id p)) s1 ps = Some (k', s')"
    by (auto split: sum.splits if_splits)
  have "length ps \<le> n'" using Cons.prems(2) n by simp
  from Cons.IH[OF l this, of "res @ [p]"] show ?case using n aw a by simp
qed

text \<open>
  C8. Let the lookups from the starting key succeed along the managers \<^verbatim>\<open>ps\<close>, fewer than 15 of
  them, and let the next lookup fail. When the failure is named \<^verbatim>\<open>NotFound\<close>,
  \<^verbatim>\<open>getAllManagers\<close> returns exactly \<^verbatim>\<open>ps\<close> and raises no error; any other failure is thrown to
  the caller as it is, and the profiles found so far are not returned.
\<close>

theorem getAllManagers_stops_at_NotFound:
  assumes "lookups net k s ps = Some (k', s')" and "length ps < maxDepth"
    and "awaitManager net k' s' = (Inl e, s'')"
  shows "(name e = ''NotFound'' \<longrightarrow> getAllManagers net k s = (Inr ps, s''))
       \<and> (name e \<noteq> ''NotFound'' \<longrightarrow> getAllManagers net k s = (Inl e, s''))"
proof -
  obtain d where d: "maxDepth - length ps = Suc d" using assms(2) by (cases "maxDepth - length ps") auto
  have "getAllManagers net k s = managersLoop net (Suc d) k' ps s'"
    using managersLoop_lookups[OF assms(1), of maxDepth "[]"] assms(2) d
    by (simp add: getAllManagers_def)
  then show ?thesis using assms(3) by simp
qed

text \<open>
  C8, witness: the chain above \<^verbatim>\<open>u0\<close> is three managers deep and the fourth lookup is answered
  by a 404: the result is the three profiles. With a network that answers 500 the first
  lookup fails and \<^verbatim>\<open>getAllManagers\<close> fails with that error.
\<close>

theorem getAllManagers_stops_at_NotFound_witness:
  "length managers3 < maxDepth
   \<and> map_option fst (lookups chain3 ''u0'' initial managers3) = Some ''u3''
   \<and> fst (awaitManager chain3 ''u3'' (snd (the (lookups chain3 ''u0'' initial managers3))))
        = Inl \<lparr>name = ''NotFound'', message = ''Not Found''\<rparr>
   \<and> fst (getAllManagers chain3 ''u0'' initial) = Inr managers3
   \<and> fst (awaitManager server_error ''u0'' initial) = Inl \<lparr>name = ''Error'', message = ''Server Error''\<rparr>
   \<and> fst (getAllManagers server_error ''u0'' initial) = Inl \<lparr>name = ''Error'', message = ''Server Error''\<rparr>"
proof -
  let ?s = "snd (the (lookups chain3 ''u0'' initial managers3))"
  have len: "length managers3 < maxDepth" by (simp add: managers3_def maxDepth_def)
  have l: "lookups chain3 ''u0'' initial managers3 = Some (''u3'', ?s)"
    by (simp add: managers3_def awaitManager_def chain3_def okResponse_def run_defs)
  have a: "awaitManager chain3 ''u3'' ?s
             = (Inl \<lparr>name = ''NotFound'', message = ''Not Found''\<rparr>, snd (awaitManager chain3 ''u3'' ?s))"
    by (simp add: managers3_def awaitManager_def chain3_def okResponse_def run_defs)
  have l0: "lookups server_error ''u0'' initial [] = Some (''u0'', initial)" by simp
  have len0: "length ([] :: IPersonaProfile list) < maxDepth" by (simp add: maxDepth_def)
  have a0: "awaitManager server_error ''u0'' initial
             = (Inl \<lparr>name = ''Error'', message = ''Server Error''\<rparr>, snd (awaitManager server_error ''u0'' initial))"
    by (simp add: awaitManager_def server_error_def run_defs)
  have c1: "map_option fst (lookups chain3 ''u0'' initial managers3) = Some ''u3''"
    by (subst l) simp
  have c2: "fst (awaitManager chain3 ''u3'' ?s) = Inl \<lparr>name = ''NotFound'', message = ''Not Found''\<rparr>"
    by (subst a) simp
  have c3: "fst (getAllManagers chain3 ''u0'' initial) = Inr managers3"
    using getAllManagers_stops_at_NotFound [OF l len a] by simp
  have c4: "fst (awaitManager server_error ''u0'' initial) = Inl \<lparr>name = ''Error'', message = ''Server Error''\<rparr>"
    by (subst a0) simp
  have c5: "fst (getAllManagers server_error ''u0'' initial) = Inl \<lparr>name = ''Error'', message = ''Server Error''\<rparr>"
    using getAllManagers_stops_at_NotFound [OF l0 len0 a0] by simp
  from len c1 c2 c3 c4 c5 show ?thesis by blast
qed

text \<open>
  C9. From every key, in every state and whatever the network answers, \<^verbatim>\<open>getAllManagers\<close>
  returns: it starts at most 15 manager requests, yields at most 15 profiles, and never
  fails with \<^verbatim>\<open>NotFound\<close>. The loop counts down from 15, so a manager relation with a cycle
  cannot keep it running.
\<close>

theorem getAllManagers_at_most_maxDepth:
  "length (started (snd (getAllManagers net k s))) \<le> length (started s) + 15
   \<and> (case fst (getAllManagers net k s) of Inr ps \<Rightarrow> length ps \<le> 15 | Inl e \<Rightarrow> name e \<noteq> ''NotFound'')"
proof -
  obtain r s' where g: "managersLoop net maxDepth k [] s = (r, s')" by (cases "managersLoop net maxDepth k [] s")
  from managersLoop_bounds[OF g] managersLoop_NotFound_caught[of net maxDepth k "[]" s _ s'] g
  show ?thesis by (auto simp: getAllManagers_def maxDepth_def split: sum.splits)
qed

text \<open>
  C9, witness: \<^verbatim>\<open>boss\<close> is its own manager. The ascent stops after 15 steps, with one request
  sent: every later lookup finds the promise in the cache.
\<close>

theorem getAllManagers_at_most_maxDepth_witness:
  "length (started (snd (getAllManagers own_manager ''boss'' initial))) \<le> length (started initial) + 15
   \<and> fst (getAllManagers own_manager ''boss'' initial) = Inr (replicate 15 (buildProfile (person ''boss'' None)))
   \<and> started (snd (getAllManagers own_manager ''boss'' initial)) = [(0, GetManagerInternal, ''boss'')]"
proof -
  have "fst (getAllManagers own_manager ''boss'' initial) = Inr (replicate 15 (buildProfile (person ''boss'' None)))
    \<and> started (snd (getAllManagers own_manager ''boss'' initial)) = [(0, GetManagerInternal, ''boss'')]"
    by (simp add: getAllManagers_def maxDepth_def awaitManager_def own_manager_def okResponse_def run_defs
        eval_nat_numeral)
  then show ?thesis
    using getAllManagers_at_most_maxDepth [of own_manager "''boss''" initial] by simp
qed

subsection \<open>No event removes an entry of a cache\<close>

lemma kept_refl [simp]: "kept s s"
  by (simp add: kept_def)

lemma kept_trans: "kept a b \<Longrightarrow> kept b c \<Longrightarrow> kept a c"
  unfolding kept_def by blast

lemma kept_fold: "(\<And>x s. kept s (f x s)) \<Longrightarrow> kept s (fold f xs s)"
proof (induction xs arbitrary: s)
  case Nil
  show ?case by simp
next
  case (Cons x xs)
  have "kept s (f x s)" by (rule Cons.prems)
  moreover have "kept (f x s) (fold f xs (f x s))" using Cons.prems by (rule Cons.IH)
  ultimately show ?case using kept_trans by simp
qed

lemma kept_store: "kept s (store c k v s)"
  by (cases c) (auto simp: kept_def store_def)

lemma kept_then: "kept s (cacheByIdOrEmail_then p c v s)"
  unfolding cacheByIdOrEmail_then_def Let_def
  using kept_store kept_trans by (metis (full_types))

lemma kept_thenCatch: "kept s (thenCatch pp c v s)"
  by (simp add: kept_def)

lemma kept_runCallback: "kept s (runCallback t s)"
  by (simp add: runCallback_def kept_then split: outcome.splits)

lemma kept_runMicrotask: "kept s (runMicrotask s)"
proof (cases "microtasks s")
  case Nil
  then show ?thesis by (simp add: runMicrotask_def)
next
  case (Cons t ts)
  have "kept s (s\<lparr>microtasks := ts\<rparr>)" by (simp add: kept_def)
  moreover have "kept (s\<lparr>microtasks := ts\<rparr>) (runCallback t (s\<lparr>microtasks := ts\<rparr>))"
    by (rule kept_runCallback)
  ultimately show ?thesis using Cons kept_trans by (simp add: runMicrotask_def)
qed

lemma kept_settleProfile: "kept s (settleProfile f r s)"
proof -
  let ?s1 = "s\<lparr>profilePromises := (profilePromises s)(f := settled r),
                thens := filter (\<lambda>t. fst t \<noteq> f) (thens s)\<rparr>"
  have a: "kept s ?s1" by (simp add: kept_def)
  have "kept ?s1 (fold (\<lambda>t. cacheByIdOrEmail_then p (fst (snd t)) (snd (snd t))) ts ?s1)" for p ts
    by (rule kept_fold) (rule kept_then)
  then show ?thesis
    using a kept_trans[OF a] by (auto simp: settleProfile_def Let_def split: sum.splits)
qed

lemma kept_continue: "kept s (continue s)"
proof (cases "deferred s")
  case Nil
  then show ?thesis by (simp add: continue_def)
next
  case (Cons c cs)
  have "kept s (s\<lparr>deferred := cs\<rparr>)" by (simp add: kept_def)
  moreover have "kept (s\<lparr>deferred := cs\<rparr>) (settleProfile (fst c) (snd c) (s\<lparr>deferred := cs\<rparr>))"
    by (rule kept_settleProfile)
  ultimately show ?thesis using Cons kept_trans by (simp add: continue_def)
qed

lemma kept_drain: "kept s (drain s)"
proof -
  let ?s1 = "fold runCallback (microtasks s) (s\<lparr>microtasks := []\<rparr>)"
  have "kept s (s\<lparr>microtasks := []\<rparr>)" by (simp add: kept_def)
  moreover have "kept (s\<lparr>microtasks := []\<rparr>) ?s1"
    by (rule kept_fold) (rule kept_runCallback)
  moreover have "kept ?s1 (?s1\<lparr>deferred := []\<rparr>)" by (simp add: kept_def)
  moreover have "kept (?s1\<lparr>deferred := []\<rparr>)
      (fold (\<lambda>c. settleProfile (fst c) (snd c)) (deferred ?s1) (?s1\<lparr>deferred := []\<rparr>))"
    by (rule kept_fold) (rule kept_settleProfile)
  ultimately show ?thesis unfolding drain_def Let_def using kept_trans by blast
qed

lemma kept_settleDirects: "kept s (settleDirects f r s)"
  by (simp add: kept_def)

lemma kept_settlePhoto: "kept s (settlePhoto f r s)"
  by (simp add: settlePhoto_def kept_def)

lemma kept_resume: "kept s (resume p r s)"
  by (simp add: resume_def Let_def kept_settleProfile split: option.splits) (simp add: kept_def)

lemma kept_onResolve: "kept s (onResolve p res s)"
proof -
  let ?s1 = "s\<lparr>batchPromises := (batchPromises s)(p := Fulfilled res)\<rparr>"
  have "kept s ?s1" by (simp add: kept_def)
  moreover have "kept ?s1 (resume p (Inr res) ?s1)" by (rule kept_resume)
  ultimately show ?thesis using kept_trans by (auto simp: onResolve_def)
qed

lemma kept_onReject: "kept s (onReject p e s)"
proof -
  let ?s1 = "s\<lparr>batchPromises := (batchPromises s)(p := Rejected e)\<rparr>"
  have "kept s ?s1" by (simp add: kept_def)
  moreover have "kept ?s1 (resume p (Inl e) ?s1)" by (rule kept_resume)
  ultimately show ?thesis using kept_trans by (auto simp: onReject_def)
qed

lemma kept_dispatch: "kept s (snd (dispatch rs pq s))"
proof (induction rs arbitrary: s)
  case Nil
  show ?case by simp
next
  case (Cons r rs)
  show ?case
  proof (cases "map_of pq (resp_id r)")
    case None
    then show ?thesis by simp
  next
    case (Some req)
    have "kept s (onResolve (req_promise req) r s)" by (rule kept_onResolve)
    then show ?thesis using Some Cons.IH kept_trans by auto
  qed
qed

lemma kept_rejectAll: "kept s (rejectAll e pq s)"
  unfolding rejectAll_def by (rule kept_fold) (auto simp: kept_onReject)

lemma kept_processBatch_rest: "kept s (processBatch_rest net b s)"
proof (cases net)
  case (AuthFailed e)
  then show ?thesis by (simp add: processBatch_rest_def kept_def split: option.splits)
next
  case (FetchFailed e)
  then show ?thesis by (simp add: processBatch_rest_def kept_rejectAll)
next
  case (Fetched response)
  have d: "kept s (snd (processResponse response (processingQueue b) s))"
    by (simp add: processResponse_def kept_dispatch split: sum.splits)
  obtain r s1 where p: "processResponse response (processingQueue b) s = (r, s1)"
    by (cases "processResponse response (processingQueue b) s")
  then have "kept s s1" using d by simp
  moreover have "kept s1 (rejectAll e (processingQueue b) s1)" for e by (rule kept_rejectAll)
  ultimately show ?thesis
    using Fetched p kept_trans by (auto simp: processBatch_rest_def split: sum.splits)
qed

lemma kept_batchDone: "kept s (batchDone i net s)"
proof -
  let ?s1 = "s\<lparr>inflight := take i (inflight s) @ drop (Suc i) (inflight s),
                finishing := awaitedBy (inflight s ! i)\<rparr>"
  let ?s2 = "processBatch_rest net (inflight s ! i) ?s1"
  have "kept s ?s1" by (simp add: kept_def)
  moreover have "kept ?s1 ?s2" by (rule kept_processBatch_rest)
  moreover have "kept ?s2 (?s2\<lparr>finishing := None\<rparr>)" by (simp add: kept_def)
  ultimately have "kept s (?s2\<lparr>finishing := None\<rparr>)" using kept_trans by blast
  then show ?thesis by (simp add: batchDone_def)
qed

lemma kept_processBatch: "kept s (processBatch c s)"
  by (simp add: processBatch_def kept_def)

lemma kept_resolveProfile: "kept s (snd (resolveProfile k s))"
  by (simp add: resolveProfile_state resolveProfileInternal_def enqueueRequest_def processBatch_def
      Let_def split_def kept_def)

lemma kept_getPhotoUrl: "kept s (snd (getPhotoUrl k s))"
  by (simp add: getPhotoUrl_state getPhotoUrlInternal_def Let_def kept_def split: property.splits)

lemma kept_getManager: "kept s (snd (getManager k s))"
  by (simp add: getManager_state getManagerInternal_def Let_def kept_def split: property.splits)

lemma kept_getDirects: "kept s (snd (getDirects k s))"
  by (simp add: getDirects_state getDirectsInternal_def Let_def kept_def split: property.splits)

lemma kept_done:
  "kept s (managerDone f m s)" "kept s (photoDone f p s)" "kept s (directsDone f d s)"
  by (simp_all add: managerDone_def photoDone_def directsDone_def kept_settleProfile kept_settlePhoto
      kept_settleDirects split: option.splits operation.splits)

lemma kept_step: "kept s (step ev s)"
proof (cases ev)
  case TimerFired
  then show ?thesis using kept_trans[OF kept_drain kept_processBatch] by simp
next
  case (BatchDone i net)
  then show ?thesis using kept_trans[OF kept_drain kept_batchDone] by simp
next
  case (ManagerDone f net)
  then show ?thesis using kept_trans[OF kept_drain kept_done(1)] by simp
next
  case (PhotoDone f net)
  then show ?thesis using kept_trans[OF kept_drain kept_done(2)] by simp
next
  case (DirectsDone f net)
  then show ?thesis using kept_trans[OF kept_drain kept_done(3)] by simp
qed (simp_all add: kept_resolveProfile kept_getPhotoUrl kept_getManager kept_getDirects kept_runMicrotask
       kept_continue)

lemma kept_run: "kept s (run evs s)"
  unfolding run_def by (rule kept_fold) (rule kept_step)

lemma kept_cache: "kept s s' \<Longrightarrow> cache c s k \<noteq> None \<Longrightarrow> cache c s' k \<noteq> None"
  by (cases c) (auto simp: kept_def cache_def)

lemma kept_getProperty:
  "kept s s' \<Longrightarrow> getProperty (cache c s) k \<noteq> Undefined \<Longrightarrow> getProperty (cache c s') k \<noteq> Undefined"
  by (rule getProperty_kept[of "cache c s" "cache c s'"]) (cases c; auto simp: kept_def cache_def)+

subsection \<open>Which events start a fetcher\<close>

lemma started_fold: "(\<And>x s. started (f x s) = started s) \<Longrightarrow> started (fold f xs s) = started s"
  by (induction xs arbitrary: s) simp_all

lemma started_resume [simp]: "started (resume p r s) = started s"
  by (simp add: resume_def Let_def split: option.splits)

lemma started_onResolve [simp]: "started (onResolve p res s) = started s"
  by (simp add: onResolve_def)

lemma started_onReject [simp]: "started (onReject p e s) = started s"
  by (simp add: onReject_def)

lemma started_dispatch [simp]: "started (snd (dispatch rs pq s)) = started s"
  by (induction rs arbitrary: s) (simp_all split: option.splits)

lemma started_rejectAll [simp]: "started (rejectAll e pq s) = started s"
  unfolding rejectAll_def by (rule started_fold) (simp split: prod.splits)

lemma started_processBatch_rest [simp]: "started (processBatch_rest net b s) = started s"
proof (cases net)
  case (Fetched response)
  obtain r s1 where p: "processResponse response (processingQueue b) s = (r, s1)"
    by (cases "processResponse response (processingQueue b) s")
  have "started (snd (processResponse response (processingQueue b) s)) = started s"
    by (simp add: processResponse_def split: sum.splits)
  then have "started s1 = started s" using p by simp
  then show ?thesis using Fetched p by (simp add: processBatch_rest_def split: sum.splits)
qed (simp_all add: processBatch_rest_def split: option.splits)

lemma started_batchDone [simp]: "started (batchDone i net s) = started s"
  by (simp add: batchDone_def)

lemma started_processBatch [simp]: "started (processBatch c s) = started s"
  by (simp add: processBatch_def)

lemma started_step: "started (step ev s) = started s @ new_fetch ev s"
proof (cases ev)
  case (ResolveProfile k)
  then show ?thesis
    by (simp add: new_fetch_def resolveProfile_state resolveProfileInternal_def enqueueRequest_def
        Let_def)
next
  case (GetPhotoUrl k)
  then show ?thesis
    by (simp add: new_fetch_def getPhotoUrl_state getPhotoUrlInternal_def Let_def
        split: property.splits)
next
  case (GetManager k)
  then show ?thesis
    by (simp add: new_fetch_def getManager_state getManagerInternal_def Let_def
        split: property.splits)
next
  case (GetDirects k)
  then show ?thesis
    by (simp add: new_fetch_def getDirects_state getDirectsInternal_def Let_def
        split: property.splits)
qed (simp_all add: new_fetch_def managerDone_def photoDone_def directsDone_def
       split: option.splits operation.splits)

lemma fetches_step:
  assumes "getProperty (cache c s) k \<noteq> Undefined"
  shows "fetches (operation_of c) k (step ev s) = fetches (operation_of c) k s"
proof -
  have "filter (\<lambda>x. snd x = (operation_of c, k)) (new_fetch ev s) = []"
    using assms by (cases ev; cases c) (auto simp: new_fetch_def cache_def operation_of_def)
  then show ?thesis by (simp add: fetches_def started_step)
qed

lemma fetches_run:
  "getProperty (cache c s) k \<noteq> Undefined \<Longrightarrow>
     fetches (operation_of c) k (run evs s) = fetches (operation_of c) k s"
proof (induction evs arbitrary: s)
  case Nil
  show ?case by (simp add: run_def)
next
  case (Cons ev evs)
  have "getProperty (cache c (step ev s)) k \<noteq> Undefined"
    using kept_step Cons.prems by (rule kept_getProperty)
  from Cons.IH[OF this] show ?case using fetches_step[OF Cons.prems] by (simp add: run_def)
qed

subsection \<open>Lookups\<close>

lemma cache_update [simp]:
  "cache c (s\<lparr>microtasks := m\<rparr>) = cache c s"
  "cache c (s\<lparr>thens := t\<rparr>) = cache c s"
  "cache c (s\<lparr>profilePromises := pr\<rparr>) = cache c s"
  "cache c (s\<lparr>batchPromises := bp\<rparr>) = cache c s"
  "cache c (s\<lparr>inflight := fl\<rparr>) = cache c s"
  "cache c (s\<lparr>deferred := df\<rparr>) = cache c s"
  "cache c (s\<lparr>finishing := fi\<rparr>) = cache c s"
  by (cases c; simp add: cache_def)+

lemma cache_frames [simp]:
  "cache c (thenCatch pp c' v s) = cache c s"
  "cache c (settlePhoto f rp s) = cache c s"
  "cache c (settleDirects f rd s) = cache c s"
  "cache c (processBatch caller s) = cache c s"
  by (cases c; simp add: cache_def processBatch_def)+

lemma lookup_hit: "cache c s k = Some f \<Longrightarrow> lookup c k s = (Inr (Promise f), s)"
  by (cases c)
     (simp_all add: lookup_def cache_def resolveProfile_def getPhotoUrl_def getManager_def getDirects_def)

lemma step_lookup: "step (lookup_event c k) s = snd (lookup c k s)"
  by (cases c) (simp_all add: lookup_def lookup_event_def)

text \<open>A lookup writes one entry, and only when the key misses: the promise of the fetcher.\<close>

lemma lookup_caches:
  "cache c' (snd (lookup c k s)) =
     (if getProperty (cache c s) k = Undefined \<and> c' = c then (cache c s)(k \<mapsto> nextPromise s)
      else cache c' s)"
  by (cases c; cases c')
     (simp_all add: lookup_def cache_def resolveProfile_state getPhotoUrl_state getManager_state
        getDirects_state resolveProfileInternal_def enqueueRequest_def processBatch_def
        getPhotoUrlInternal_def getManagerInternal_def getDirectsInternal_def Let_def split_def
        split: property.splits)

lemma lookup_returns:
  "getProperty (cache c s) k = Undefined \<Longrightarrow>
     fst (lookup c k s) =
       (if c \<noteq> ProfilesCache \<and> getProperty (profilesCache s) k = Inherited then Inl TypeError
        else Inr (Promise (nextPromise s)))"
  by (cases c)
     (simp_all add: lookup_def cache_def resolveProfile_returns getPhotoUrl_returns getManager_returns
        getDirects_returns)

lemma lookup_miss:
  "getProperty (cache c s) k = Undefined \<Longrightarrow> cache c (snd (lookup c k s)) k = Some (nextPromise s)"
  by (simp add: lookup_caches)

lemma fetches_lookup_miss:
  assumes "getProperty (cache c s) k = Undefined"
  shows "fetches (operation_of c) k (snd (lookup c k s)) = fetches (operation_of c) k s + 1"
proof -
  have "new_fetch (lookup_event c k) s = [(nextPromise s, operation_of c, k)]"
    using assms by (cases c) (simp_all add: new_fetch_def lookup_event_def cache_def operation_of_def)
  then show ?thesis
    using started_step[of "lookup_event c k" s] by (simp add: step_lookup fetches_def)
qed

lemma later_lookup:
  assumes "cache c s k \<noteq> None"
  shows "\<exists>g. cache c (run evs s) k = Some g \<and> lookup c k (run evs s) = (Inr (Promise g), run evs s)"
proof -
  have "cache c (run evs s) k \<noteq> None" using kept_run assms by (rule kept_cache)
  then obtain g where "cache c (run evs s) k = Some g" by auto
  then show ?thesis using lookup_hit by blast
qed

subsection \<open>What replaces an entry of a cache\<close>

lemma runCallback_cache:
  "cache c (runCallback t s) k =
     (if fst (snd t) = c \<and> fulfilled_for k (fst t) s then Some (snd (snd t)) else cache c s k)"
  by (simp add: runCallback_def fulfilled_for_def then_cache split: outcome.splits)

lemma fulfilled_for_runCallback [simp]: "fulfilled_for k pp (runCallback t s) = fulfilled_for k pp s"
  by (simp add: fulfilled_for_def)

lemma fold_then_cache:
  "cache c (fold (\<lambda>t. cacheByIdOrEmail_then p (fst (snd t)) (snd (snd t))) ts s) k = cache c s k
   \<or> (\<exists>t \<in> set ts. fst (snd t) = c \<and> hits p k
         \<and> cache c (fold (\<lambda>t. cacheByIdOrEmail_then p (fst (snd t)) (snd (snd t))) ts s) k = Some (snd (snd t)))"
proof (induction ts arbitrary: s)
  case Nil
  show ?case by simp
next
  case (Cons t ts)
  let ?s1 = "cacheByIdOrEmail_then p (fst (snd t)) (snd (snd t)) s"
  from Cons.IH[of ?s1] consider
      (same) "cache c (fold (\<lambda>t. cacheByIdOrEmail_then p (fst (snd t)) (snd (snd t))) ts ?s1) k = cache c ?s1 k"
    | (later) "\<exists>t' \<in> set ts. fst (snd t') = c \<and> hits p k
         \<and> cache c (fold (\<lambda>t. cacheByIdOrEmail_then p (fst (snd t)) (snd (snd t))) ts ?s1) k = Some (snd (snd t'))"
    by auto
  then show ?case
  proof cases
    case same
    then show ?thesis using then_cache[of c p "fst (snd t)" "snd (snd t)" s k] by (auto split: if_splits)
  next
    case later
    then show ?thesis by auto
  qed
qed

lemma fulfilled_for_persists:
  assumes "\<forall>pp p. profilePromises a pp = Fulfilled p \<longrightarrow> profilePromises b pp = Fulfilled p"
    and "fulfilled_for k pp a"
  shows "fulfilled_for k pp b"
  using assms by (auto simp: fulfilled_for_def split: outcome.splits)

lemma explained_refl [simp]: "explained D s s"
  by (simp add: explained_def)

lemma explained_trans:
  assumes ab: "explained D a b" and bc: "explained D b c"
  shows "explained D a c"
proof -
  have "set (thens c) \<subseteq> D
        \<and> (\<forall>pp p. profilePromises a pp = Fulfilled p \<longrightarrow> profilePromises c pp = Fulfilled p)
        \<and> (\<forall>c0 k. cache c0 c k = cache c0 a k
                 \<or> (\<exists>t \<in> D. fst (snd t) = c0 \<and> cache c0 c k = Some (snd (snd t))
                            \<and> fulfilled_for k (fst t) c))"
    if ta: "set (thens a) \<subseteq> D"
  proof -
    from ab ta have tb: "set (thens b) \<subseteq> D"
      and pab: "\<forall>pp p. profilePromises a pp = Fulfilled p \<longrightarrow> profilePromises b pp = Fulfilled p"
      and cab: "\<And>c0 k. cache c0 b k = cache c0 a k
                 \<or> (\<exists>t \<in> D. fst (snd t) = c0 \<and> cache c0 b k = Some (snd (snd t))
                            \<and> fulfilled_for k (fst t) b)"
      by (simp_all add: explained_def)
    from bc tb have tc: "set (thens c) \<subseteq> D"
      and pbc: "\<forall>pp p. profilePromises b pp = Fulfilled p \<longrightarrow> profilePromises c pp = Fulfilled p"
      and cbc: "\<And>c0 k. cache c0 c k = cache c0 b k
                 \<or> (\<exists>t \<in> D. fst (snd t) = c0 \<and> cache c0 c k = Some (snd (snd t))
                            \<and> fulfilled_for k (fst t) c)"
      by (simp_all add: explained_def)
    have pac: "\<forall>pp p. profilePromises a pp = Fulfilled p \<longrightarrow> profilePromises c pp = Fulfilled p"
      using pab pbc by blast
    have "cache c0 c k = cache c0 a k
          \<or> (\<exists>t \<in> D. fst (snd t) = c0 \<and> cache c0 c k = Some (snd (snd t)) \<and> fulfilled_for k (fst t) c)"
      for c0 k
    proof (cases "cache c0 c k = cache c0 b k")
      case False
      then show ?thesis using cbc[of c0 k] by blast
    next
      case True
      show ?thesis
      proof (cases "cache c0 b k = cache c0 a k")
        case True
        then show ?thesis using \<open>cache c0 c k = cache c0 b k\<close> by simp
      next
        case False
        then obtain t where t: "t \<in> D" "fst (snd t) = c0" "cache c0 b k = Some (snd (snd t))"
          "fulfilled_for k (fst t) b"
          using cab[of c0 k] by blast
        have "fulfilled_for k (fst t) c" using pbc t(4) by (rule fulfilled_for_persists)
        then show ?thesis using t True by auto
      qed
    qed
    then show ?thesis using tc pac by blast
  qed
  then show ?thesis unfolding explained_def by blast
qed

lemma explained_fold: "(\<And>x s. explained D s (f x s)) \<Longrightarrow> explained D s (fold f xs s)"
proof (induction xs arbitrary: s)
  case Nil
  show ?case by simp
next
  case (Cons x xs)
  have "explained D s (f x s)" by (rule Cons.prems)
  moreover have "explained D (f x s) (fold f xs (f x s))" using Cons.prems by (rule Cons.IH)
  ultimately show ?case using explained_trans by simp
qed

lemma explained_settleProfile: "explained D s (settleProfile f r s)"
proof (cases "profilePromises s f = Pending")
  case False
  then show ?thesis by (simp add: settleProfile_def)
next
  case True
  let ?s1 = "s\<lparr>profilePromises := (profilePromises s)(f := settled r),
                thens := filter (\<lambda>t. fst t \<noteq> f) (thens s)\<rparr>"
  show ?thesis
  proof (cases r)
    case (Inl e)
    then have "settleProfile f r s = ?s1" using True by (simp add: settleProfile_def)
    moreover have "explained D s ?s1" using True by (auto simp: explained_def)
    ultimately show ?thesis by simp
  next
    case (Inr p)
    let ?ts = "filter (\<lambda>t. fst t = f) (thens s)"
    let ?s2 = "fold (\<lambda>t. cacheByIdOrEmail_then p (fst (snd t)) (snd (snd t))) ?ts ?s1"
    have eq: "settleProfile f r s = ?s2" using True Inr by (simp add: settleProfile_def Let_def)
    have pr: "profilePromises ?s2 = (profilePromises s)(f := Fulfilled p)"
      using Inr by (simp add: settled_def)
    have "cache c ?s2 k = cache c s k
          \<or> (\<exists>t \<in> D. fst (snd t) = c \<and> cache c ?s2 k = Some (snd (snd t)) \<and> fulfilled_for k (fst t) ?s2)"
      if ta: "set (thens s) \<subseteq> D" for c k
    proof (cases "cache c ?s2 k = cache c ?s1 k")
      case True
      then show ?thesis by simp
    next
      case False
      then obtain t where t: "t \<in> set ?ts" "fst (snd t) = c" "hits p k" "cache c ?s2 k = Some (snd (snd t))"
        using fold_then_cache[of c p ?ts ?s1 k] by blast
      have "fst t = f" using t(1) by simp
      then have "fulfilled_for k (fst t) ?s2" using t(3) pr by (simp add: fulfilled_for_def)
      moreover have "t \<in> D" using t(1) ta by auto
      ultimately show ?thesis using t(2,4) by blast
    qed
    moreover have "\<forall>pp q. profilePromises s pp = Fulfilled q \<longrightarrow> profilePromises ?s2 pp = Fulfilled q"
      using True pr by auto
    moreover have "set (thens ?s2) \<subseteq> set (thens s)" by auto
    ultimately have "explained D s ?s2" unfolding explained_def by blast
    then show ?thesis using eq by simp
  qed
qed

lemma explained_in_fold:
  "(\<And>x s. x \<in> set xs \<Longrightarrow> explained D s (f x s)) \<Longrightarrow> explained D s (fold f xs s)"
proof (induction xs arbitrary: s)
  case Nil
  show ?case by simp
next
  case (Cons x xs)
  have "explained D s (f x s)" by (rule Cons.prems) simp
  moreover have "explained D (f x s) (fold f xs (f x s))" using Cons.prems by (intro Cons.IH) simp
  ultimately show ?case using explained_trans by simp
qed

lemma explained_runCallback: "t \<in> D \<Longrightarrow> explained D s (runCallback t s)"
  unfolding explained_def using runCallback_cache[of _ t s] by auto

lemma explained_continue: "explained D s (continue s)"
proof (cases "deferred s")
  case Nil
  then show ?thesis by (simp add: continue_def)
next
  case (Cons c cs)
  have "explained D s (s\<lparr>deferred := cs\<rparr>)" by (simp add: explained_def)
  moreover have "explained D (s\<lparr>deferred := cs\<rparr>) (settleProfile (fst c) (snd c) (s\<lparr>deferred := cs\<rparr>))"
    by (rule explained_settleProfile)
  ultimately show ?thesis using Cons explained_trans by (simp add: continue_def)
qed

lemma explained_drain:
  assumes "set (microtasks s) \<subseteq> D"
  shows "explained D s (drain s)"
proof -
  let ?s1 = "fold runCallback (microtasks s) (s\<lparr>microtasks := []\<rparr>)"
  have "explained D s (s\<lparr>microtasks := []\<rparr>)" by (simp add: explained_def)
  moreover have "explained D (s\<lparr>microtasks := []\<rparr>) ?s1"
    using assms by (intro explained_in_fold explained_runCallback) auto
  moreover have "explained D ?s1 (?s1\<lparr>deferred := []\<rparr>)" by (simp add: explained_def)
  moreover have "explained D (?s1\<lparr>deferred := []\<rparr>)
      (fold (\<lambda>c. settleProfile (fst c) (snd c)) (deferred ?s1) (?s1\<lparr>deferred := []\<rparr>))"
    by (rule explained_fold) (rule explained_settleProfile)
  ultimately show ?thesis unfolding drain_def Let_def using explained_trans by blast
qed

lemma explained_resume: "explained D s (resume p r s)"
  by (simp add: resume_def Let_def explained_settleProfile split: option.splits)
     (simp add: explained_def)

lemma explained_onResolve: "explained D s (onResolve p res s)"
proof -
  let ?s1 = "s\<lparr>batchPromises := (batchPromises s)(p := Fulfilled res)\<rparr>"
  have "explained D s ?s1" by (simp add: explained_def)
  moreover have "explained D ?s1 (resume p (Inr res) ?s1)" by (rule explained_resume)
  ultimately show ?thesis using explained_trans by (auto simp: onResolve_def)
qed

lemma explained_onReject: "explained D s (onReject p e s)"
proof -
  let ?s1 = "s\<lparr>batchPromises := (batchPromises s)(p := Rejected e)\<rparr>"
  have "explained D s ?s1" by (simp add: explained_def)
  moreover have "explained D ?s1 (resume p (Inl e) ?s1)" by (rule explained_resume)
  ultimately show ?thesis using explained_trans by (auto simp: onReject_def)
qed

lemma explained_dispatch: "explained D s (snd (dispatch rs pq s))"
proof (induction rs arbitrary: s)
  case Nil
  show ?case by simp
next
  case (Cons r rs)
  show ?case
  proof (cases "map_of pq (resp_id r)")
    case None
    then show ?thesis by simp
  next
    case (Some req)
    have "explained D s (onResolve (req_promise req) r s)" by (rule explained_onResolve)
    then show ?thesis using Some Cons.IH explained_trans by auto
  qed
qed

lemma explained_rejectAll: "explained D s (rejectAll e pq s)"
  unfolding rejectAll_def by (rule explained_fold) (auto simp: explained_onReject)

lemma explained_processBatch_rest: "explained D s (processBatch_rest net b s)"
proof (cases net)
  case (AuthFailed e)
  then show ?thesis by (simp add: processBatch_rest_def explained_def split: option.splits)
next
  case (FetchFailed e)
  then show ?thesis by (simp add: processBatch_rest_def explained_rejectAll)
next
  case (Fetched response)
  have d: "explained D s (snd (processResponse response (processingQueue b) s))"
    by (simp add: processResponse_def explained_dispatch split: sum.splits)
  obtain r s1 where p: "processResponse response (processingQueue b) s = (r, s1)"
    by (cases "processResponse response (processingQueue b) s")
  then have "explained D s s1" using d by simp
  moreover have "explained D s1 (rejectAll e (processingQueue b) s1)" for e by (rule explained_rejectAll)
  ultimately show ?thesis
    using Fetched p explained_trans by (auto simp: processBatch_rest_def split: sum.splits)
qed

lemma explained_batchDone: "explained D s (batchDone i net s)"
proof -
  let ?s1 = "s\<lparr>inflight := take i (inflight s) @ drop (Suc i) (inflight s),
                finishing := awaitedBy (inflight s ! i)\<rparr>"
  let ?s2 = "processBatch_rest net (inflight s ! i) ?s1"
  have "explained D s ?s1" by (simp add: explained_def)
  moreover have "explained D ?s1 ?s2" by (rule explained_processBatch_rest)
  moreover have "explained D ?s2 (?s2\<lparr>finishing := None\<rparr>)" by (simp add: explained_def)
  ultimately have "explained D s (?s2\<lparr>finishing := None\<rparr>)" using explained_trans by blast
  then show ?thesis by (simp add: batchDone_def)
qed

lemma explained_managerDone: "explained D s (managerDone f net s)"
  by (simp add: managerDone_def explained_settleProfile split: option.splits operation.splits)

lemma explained_cache:
  assumes "explained D s s2" and "set (thens s) \<subseteq> D"
  shows "cache c s2 k = cache c s k
       \<or> (\<exists>t \<in> D. fst (snd t) = c \<and> cache c s2 k = Some (snd (snd t)) \<and> fulfilled_for k (fst t) s2)"
  using assms unfolding explained_def by blast

text \<open>
  A task that starts in \<^verbatim>\<open>s\<close>: the microtask queue is emptied, then the task runs. An entry that
  differs afterwards was written by a callback of the microtask queue or by a callback
  registered on a promise that was fulfilled when the queue was emptied or by the task.
\<close>

lemma task_cache:
  assumes "explained (set (microtasks s @ thens s)) (drain s) s2"
  shows "cache c s2 k = cache c s k
       \<or> (\<exists>t \<in> set (microtasks s @ thens s). fst (snd t) = c \<and> cache c s2 k = Some (snd (snd t))
              \<and> fulfilled_for k (fst t) s2)"
proof -
  have "explained (set (microtasks s @ thens s)) s (drain s)"
    by (rule explained_drain) simp
  then have "explained (set (microtasks s @ thens s)) s s2"
    using assms by (rule explained_trans)
  then show ?thesis by (rule explained_cache) simp
qed

lemma task_cache_drain:
  assumes "cache c s2 = cache c (drain s)"
  shows "cache c s2 k = cache c s k
       \<or> (\<exists>t \<in> set (microtasks s @ thens s). fst (snd t) = c \<and> cache c s2 k = Some (snd (snd t))
              \<and> fulfilled_for k (fst t) (drain s))"
proof -
  have "explained (set (microtasks s @ thens s)) s (drain s)"
    by (rule explained_drain) simp
  from explained_cache[OF this, of c k] show ?thesis using assms by simp
qed

text \<open>
  In one event an entry of a cache stays as it is, is made by the lookup of a key that
  missed, or is written by a cross-index write.
\<close>

lemma entry_step:
  "cache c (step ev s) k = cache c s k
   \<or> (getProperty (cache c s) k = Undefined \<and> ev = lookup_event c k
        \<and> cache c (step ev s) k = Some (nextPromise s))
   \<or> (\<exists>v. cross_write c k v ev s \<and> cache c (step ev s) k = Some v)"
proof (cases ev)
  case (ResolveProfile k')
  then have "step ev s = snd (lookup ProfilesCache k' s)" by (simp add: lookup_def)
  then show ?thesis
    using ResolveProfile by (auto simp: lookup_caches lookup_event_def split: if_splits)
next
  case (GetPhotoUrl k')
  then have "step ev s = snd (lookup PhotosCache k' s)" by (simp add: lookup_def)
  then show ?thesis
    using GetPhotoUrl by (auto simp: lookup_caches lookup_event_def split: if_splits)
next
  case (GetManager k')
  then have "step ev s = snd (lookup ManagersCache k' s)" by (simp add: lookup_def)
  then show ?thesis
    using GetManager by (auto simp: lookup_caches lookup_event_def split: if_splits)
next
  case (GetDirects k')
  then have "step ev s = snd (lookup DirectsCache k' s)" by (simp add: lookup_def)
  then show ?thesis
    using GetDirects by (auto simp: lookup_caches lookup_event_def split: if_splits)
next
  case Microtask
  show ?thesis
  proof (cases "microtasks s")
    case Nil
    then show ?thesis using Microtask by (simp add: runMicrotask_def)
  next
    case (Cons t ts)
    then have "cache c (step ev s) k =
        (if fst (snd t) = c \<and> fulfilled_for k (fst t) (step ev s) then Some (snd (snd t)) else cache c s k)"
      using Microtask by (simp add: runMicrotask_def runCallback_cache fulfilled_for_def)
    then show ?thesis
      using Microtask Cons
      by (auto simp: cross_write_def callbacks_due_def moments_def starts_task_def split: if_splits)
  qed
next
  case Continue
  have "explained (set (thens s)) s (step ev s)"
    using Continue explained_continue by simp
  from explained_cache[OF this, of c k] show ?thesis
    using Continue by (auto simp: cross_write_def callbacks_due_def moments_def starts_task_def list_ex_iff)
next
  case TimerFired
  have "cache c (step ev s) = cache c (drain s)"
    using TimerFired by simp
  from task_cache_drain[OF this, of k] show ?thesis
    using TimerFired by (auto simp: cross_write_def callbacks_due_def moments_def starts_task_def list_ex_iff)
next
  case (PhotoDone f net)
  have "cache c (step ev s) = cache c (drain s)"
    using PhotoDone by (simp add: photoDone_def split: option.splits operation.splits)
  from task_cache_drain[OF this, of k] show ?thesis
    using PhotoDone by (auto simp: cross_write_def callbacks_due_def moments_def starts_task_def list_ex_iff)
next
  case (DirectsDone f net)
  have "cache c (step ev s) = cache c (drain s)"
    using DirectsDone by (simp add: directsDone_def split: option.splits operation.splits)
  from task_cache_drain[OF this, of k] show ?thesis
    using DirectsDone by (auto simp: cross_write_def callbacks_due_def moments_def starts_task_def list_ex_iff)
next
  case (ManagerDone f net)
  have "explained (set (microtasks s @ thens s)) (drain s) (step ev s)"
    using ManagerDone explained_managerDone by simp
  from task_cache[OF this, of c k] show ?thesis
    using ManagerDone by (auto simp: cross_write_def callbacks_due_def moments_def starts_task_def list_ex_iff)
next
  case (BatchDone i net)
  have "explained (set (microtasks s @ thens s)) (drain s) (step ev s)"
    using BatchDone explained_batchDone by simp
  from task_cache[OF this, of c k] show ?thesis
    using BatchDone by (auto simp: cross_write_def callbacks_due_def moments_def starts_task_def list_ex_iff)
qed

text \<open>
  Over a run, the future stored under a key stays the same unless an event makes a
  cross-index write under that key, and then the entry holds the value of such a write.
\<close>

lemma entry_run:
  "cache c s k = Some f \<Longrightarrow>
     cache c (run evs s) k = Some f \<or> (\<exists>v. rewritten c k v evs s \<and> cache c (run evs s) k = Some v)"
proof (induction evs arbitrary: s f)
  case Nil
  then show ?case by (simp add: run_def)
next
  case (Cons ev evs)
  have r: "run (ev # evs) s = run evs (step ev s)" by (simp add: run_def)
  have "getProperty (cache c s) k \<noteq> Undefined" using Cons.prems by simp
  then consider (same) "cache c (step ev s) k = Some f"
    | (written) v where "cross_write c k v ev s" "cache c (step ev s) k = Some v"
    using entry_step[of c ev s k] Cons.prems by auto
  then show ?case
  proof cases
    case same
    from Cons.IH[OF same] show ?thesis unfolding r by auto
  next
    case written
    from Cons.IH[OF written(2)] show ?thesis unfolding r using written(1) by auto
  qed
qed

subsection \<open>Stable entries and coalescing\<close>

text \<open>
  C2 (as amended). For every operation and key: when a future is stored under the key, a
  lookup returns that future and changes nothing, so a lookup never replaces an entry. After
  any further events the key still has an entry, a lookup returns the future stored there
  and changes nothing, and that future is the one first stored unless an event in between
  made a cross-index write under the key: a callback of \<^verbatim>\<open>cacheByIdOrEmail\<close> (those of the seeding
  of direct reports included) for a profile whose id or email is the key; the entry then holds
  the value of such a write.
\<close>

theorem lookup_never_replaces_an_entry:
  assumes "cache c s k = Some f"
  shows "lookup c k s = (Inr (Promise f), s)
       \<and> (\<exists>g. cache c (run evs s) k = Some g
              \<and> lookup c k (run evs s) = (Inr (Promise g), run evs s)
              \<and> (g = f \<or> rewritten c k g evs s))"
proof -
  from entry_run[OF assms, of evs] obtain g where
    g: "cache c (run evs s) k = Some g" "g = f \<or> rewritten c k g evs s"
    by auto
  have "lookup c k (run evs s) = (Inr (Promise g), run evs s)" using g(1) by (rule lookup_hit)
  then show ?thesis using lookup_hit[OF assms] g by blast
qed

text \<open>
  C2, witness: the profile \<^verbatim>\<open>id1\<close> has been resolved and its promise 0 is stored under \<^verbatim>\<open>id1\<close>.
  After the timer has fired the entry is the same. After the direct reports of \<^verbatim>\<open>boss\<close>, of
  which \<^verbatim>\<open>id1\<close> is one, have arrived and the callback of the seeding has run, the entry is
  promise 4, and the run made a cross-index write of promise 4.
\<close>

theorem lookup_never_replaces_an_entry_witness:
  "cache ProfilesCache
     (run [ResolveProfile ''id1'', TimerFired,
           BatchDone 0 (batchOk [found ''1'' (person ''id1'' (Some ''a@x''))])] initial) ''id1'' = Some 0
   \<and> fst (lookup ProfilesCache ''id1''
       (run [TimerFired]
          (run [ResolveProfile ''id1'', TimerFired,
                BatchDone 0 (batchOk [found ''1'' (person ''id1'' (Some ''a@x''))])] initial)))
       = Inr (Promise 0)
   \<and> fst (lookup ProfilesCache ''id1''
       (run [GetDirects ''boss'', DirectsDone 2 (Fetched (okResponse [person ''id1'' (Some ''a@x'')])),
             Microtask]
          (run [ResolveProfile ''id1'', TimerFired,
                BatchDone 0 (batchOk [found ''1'' (person ''id1'' (Some ''a@x''))])] initial)))
       = Inr (Promise 4)
   \<and> rewritten ProfilesCache ''id1'' 4
       [GetDirects ''boss'', DirectsDone 2 (Fetched (okResponse [person ''id1'' (Some ''a@x'')])),
        Microtask]
       (run [ResolveProfile ''id1'', TimerFired,
             BatchDone 0 (batchOk [found ''1'' (person ''id1'' (Some ''a@x''))])] initial)"
proof -
  let ?s = "run [ResolveProfile ''id1'', TimerFired,
                 BatchDone 0 (batchOk [found ''1'' (person ''id1'' (Some ''a@x''))])] initial"
  let ?evs = "[GetDirects ''boss'', DirectsDone 2 (Fetched (okResponse [person ''id1'' (Some ''a@x'')])),
               Microtask]"
  have h: "cache ProfilesCache ?s ''id1'' = Some 0"
    by (simp add: cache_def found_def run_defs)
  have a: "cache ProfilesCache (run [TimerFired] ?s) ''id1'' = Some 0"
    by (simp add: cache_def found_def run_defs)
  have b: "cache ProfilesCache (run ?evs ?s) ''id1'' = Some 4"
    by (simp add: cache_def found_def okResponse_def run_defs)
  from lookup_never_replaces_an_entry [OF h, of "[TimerFired]"] a
  have c1: "fst (lookup ProfilesCache ''id1'' (run [TimerFired] ?s)) = Inr (Promise 0)"
    by auto
  from lookup_never_replaces_an_entry [OF h, of ?evs] b
  have c2: "fst (lookup ProfilesCache ''id1'' (run ?evs ?s)) = Inr (Promise 4)"
    and c3: "rewritten ProfilesCache ''id1'' 4 ?evs ?s"
    by auto
  from h c1 c2 c3 show ?thesis by blast
qed

text \<open>
  C2 as stated fails: an entry is replaced by a different future. The profile \<^verbatim>\<open>id1\<close> is
  resolved and its promise 0 is stored under \<^verbatim>\<open>id1\<close>. Then the direct reports of \<^verbatim>\<open>boss\<close> are
  fetched, and \<^verbatim>\<open>id1\<close> is one of them: the seeding makes the new promises 3 and 4, its callback
  stores promise 4 under \<^verbatim>\<open>id1\<close>, and that is what the next lookup of \<^verbatim>\<open>id1\<close> returns.
\<close>

theorem seeding_replaces_an_entry:
  "profilesCache
     (run [ResolveProfile ''id1'', TimerFired,
           BatchDone 0 (batchOk [found ''1'' (person ''id1'' (Some ''a@x''))])] initial) ''id1'' = Some 0
   \<and> profilesCache
     (run [ResolveProfile ''id1'', TimerFired,
           BatchDone 0 (batchOk [found ''1'' (person ''id1'' (Some ''a@x''))]),
           GetDirects ''boss'',
           DirectsDone 2 (Fetched (okResponse [person ''id1'' (Some ''a@x'')])),
           Microtask] initial) ''id1'' = Some 4
   \<and> fst (resolveProfile ''id1''
     (run [ResolveProfile ''id1'', TimerFired,
           BatchDone 0 (batchOk [found ''1'' (person ''id1'' (Some ''a@x''))]),
           GetDirects ''boss'',
           DirectsDone 2 (Fetched (okResponse [person ''id1'' (Some ''a@x'')])),
           Microtask] initial)) = Inr (Promise 4)"
  by (simp add: found_def okResponse_def run_defs)

text \<open>
  C3 (as amended). For every operation and every key that misses: the lookup starts one
  fetcher and stores its promise under the key (and returns it, unless the profile cache
  reads an inherited property for the key, which makes the operation throw after that).
  After any events, a lookup of the key changes nothing, so it starts no fetcher, and
  returns the future stored under the key, which is that same promise unless an event in
  between made a cross-index write under the key; and exactly one fetcher has been started
  for the key.
\<close>

theorem one_fetch_for_each_key:
  assumes "getProperty (cache c s) k = Undefined"
  shows "fetches (operation_of c) k (snd (lookup c k s)) = fetches (operation_of c) k s + 1
       \<and> cache c (snd (lookup c k s)) k = Some (nextPromise s)
       \<and> fst (lookup c k s) =
           (if c \<noteq> ProfilesCache \<and> getProperty (profilesCache s) k = Inherited then Inl TypeError
            else Inr (Promise (nextPromise s)))
       \<and> (\<exists>g. lookup c k (run evs (snd (lookup c k s))) = (Inr (Promise g), run evs (snd (lookup c k s)))
              \<and> (g = nextPromise s \<or> rewritten c k g evs (snd (lookup c k s))))
       \<and> fetches (operation_of c) k (run evs (snd (lookup c k s))) = fetches (operation_of c) k s + 1"
proof -
  let ?s1 = "snd (lookup c k s)"
  have m: "cache c ?s1 k = Some (nextPromise s)" using assms by (rule lookup_miss)
  then have n: "getProperty (cache c ?s1) k \<noteq> Undefined" by simp
  from entry_run[OF m, of evs] obtain g where
    g: "cache c (run evs ?s1) k = Some g" "g = nextPromise s \<or> rewritten c k g evs ?s1"
    by auto
  have l: "lookup c k (run evs ?s1) = (Inr (Promise g), run evs ?s1)" using g(1) by (rule lookup_hit)
  have "fetches (operation_of c) k (run evs ?s1) = fetches (operation_of c) k ?s1"
    using n by (rule fetches_run)
  then show ?thesis
    using fetches_lookup_miss[OF assms] m lookup_returns[OF assms] l g(2) by auto
qed

text \<open>
  C3, witness: the profile of \<^verbatim>\<open>a@x\<close> has been requested and its batch sent, and \<^verbatim>\<open>id1\<close> misses.
  Its lookup returns the new promise 2. Looked up again at once and after the timer has
  fired, \<^verbatim>\<open>id1\<close> gives promise 2 again. After the batch has brought the profile of \<^verbatim>\<open>a@x\<close>,
  which is the entity \<^verbatim>\<open>id1\<close>, a lookup of \<^verbatim>\<open>id1\<close> gives promise 0, and the run made a cross-index
  write of promise 0. One fetcher has been started for \<^verbatim>\<open>id1\<close> in each case.
\<close>

theorem one_fetch_for_each_key_witness:
  "getProperty (cache ProfilesCache (run [ResolveProfile ''a@x'', TimerFired] initial)) ''id1'' = Undefined
   \<and> fst (lookup ProfilesCache ''id1'' (run [ResolveProfile ''a@x'', TimerFired] initial)) = Inr (Promise 2)
   \<and> fst (lookup ProfilesCache ''id1''
       (run [ResolveProfile ''id1'', TimerFired]
          (snd (lookup ProfilesCache ''id1'' (run [ResolveProfile ''a@x'', TimerFired] initial)))))
       = Inr (Promise 2)
   \<and> fetches ResolveProfileInternal ''id1''
       (run [ResolveProfile ''id1'', TimerFired]
          (snd (lookup ProfilesCache ''id1'' (run [ResolveProfile ''a@x'', TimerFired] initial)))) = 1
   \<and> fst (lookup ProfilesCache ''id1''
       (run [BatchDone 0 (batchOk [found ''1'' (person ''id1'' (Some ''a@x''))])]
          (snd (lookup ProfilesCache ''id1'' (run [ResolveProfile ''a@x'', TimerFired] initial)))))
       = Inr (Promise 0)
   \<and> rewritten ProfilesCache ''id1'' 0
       [BatchDone 0 (batchOk [found ''1'' (person ''id1'' (Some ''a@x''))])]
       (snd (lookup ProfilesCache ''id1'' (run [ResolveProfile ''a@x'', TimerFired] initial)))
   \<and> fetches ResolveProfileInternal ''id1''
       (run [BatchDone 0 (batchOk [found ''1'' (person ''id1'' (Some ''a@x''))])]
          (snd (lookup ProfilesCache ''id1'' (run [ResolveProfile ''a@x'', TimerFired] initial)))) = 1"
proof -
  let ?s = "run [ResolveProfile ''a@x'', TimerFired] initial"
  let ?s1 = "snd (lookup ProfilesCache ''id1'' ?s)"
  let ?e1 = "[ResolveProfile ''id1'', TimerFired]"
  let ?e2 = "[BatchDone 0 (batchOk [found ''1'' (person ''id1'' (Some ''a@x''))])]"
  have h: "getProperty (cache ProfilesCache ?s) ''id1'' = Undefined"
    by (simp add: cache_def run_defs)
  have n: "nextPromise ?s = 2" by (simp add: run_defs)
  have z: "fetches ResolveProfileInternal ''id1'' ?s = 0" by (simp add: fetches_def run_defs)
  have a: "cache ProfilesCache (run ?e1 ?s1) ''id1'' = Some 2"
    by (simp add: cache_def lookup_def run_defs)
  have b: "cache ProfilesCache (run ?e2 ?s1) ''id1'' = Some 0"
    by (simp add: cache_def lookup_def found_def run_defs)
  have la: "lookup ProfilesCache ''id1'' (run ?e1 ?s1) = (Inr (Promise 2), run ?e1 ?s1)"
    using a by (rule lookup_hit)
  have lb: "lookup ProfilesCache ''id1'' (run ?e2 ?s1) = (Inr (Promise 0), run ?e2 ?s1)"
    using b by (rule lookup_hit)
  from one_fetch_for_each_key [OF h, of ?e1] n z la
  have c1: "fst (lookup ProfilesCache ''id1'' ?s) = Inr (Promise 2)"
    and c2: "fetches ResolveProfileInternal ''id1'' (run ?e1 ?s1) = 1"
    by (simp_all add: operation_of_def)
  from one_fetch_for_each_key [OF h, of ?e2] n z lb
  have c3: "rewritten ProfilesCache ''id1'' 0 ?e2 ?s1"
    and c4: "fetches ResolveProfileInternal ''id1'' (run ?e2 ?s1) = 1"
    by (simp_all add: operation_of_def)
  from h c1 la c2 lb c3 c4 show ?thesis by simp
qed

text \<open>
  C3 as stated fails: a second lookup while the first future is pending can return another
  future. The profile of \<^verbatim>\<open>a@x\<close> is requested (promise 0) and its batch is sent. Then \<^verbatim>\<open>id1\<close> is
  looked up: promise 2, waiting in the queue. The first batch is answered: \<^verbatim>\<open>a@x\<close> is the
  entity \<^verbatim>\<open>id1\<close>, so promise 0 is stored under \<^verbatim>\<open>id1\<close>. Promise 2 is still pending, and a second
  lookup of \<^verbatim>\<open>id1\<close> returns promise 0.
\<close>

theorem second_lookup_returns_another_future:
  "fst (resolveProfile ''id1'' (run [ResolveProfile ''a@x'', TimerFired] initial)) = Inr (Promise 2)
   \<and> profilePromises
       (run [ResolveProfile ''a@x'', TimerFired, ResolveProfile ''id1'',
             BatchDone 0 (batchOk [found ''1'' (person ''id1'' (Some ''a@x''))])] initial) 2 = Pending
   \<and> fst (resolveProfile ''id1''
       (run [ResolveProfile ''a@x'', TimerFired, ResolveProfile ''id1'',
             BatchDone 0 (batchOk [found ''1'' (person ''id1'' (Some ''a@x''))])] initial)) = Inr (Promise 0)"
  by (simp add: found_def run_defs)

subsection \<open>Promises and callbacks from one state to the next\<close>

lemmas follows_defs = follows_def own_callbacks_def fresh_ids_def list_all_iff

lemma settled_not_Pending [simp]: "settled r \<noteq> Pending"
  by (cases r) (simp_all add: settled_def)

lemma follows_refl [simp]: "follows s s"
  by (simp add: follows_defs)

lemma follows_trans:
  assumes "follows a b" "follows b c"
  shows "follows a c"
proof -
  have n: "nextPromise a \<le> nextPromise b" "nextPromise b \<le> nextPromise c"
    using assms by (simp_all add: follows_def)
  have "profilePromises a f = Pending \<and> (\<forall>t \<in> set (thens a). fst t = f \<longrightarrow> t \<in> set (thens c))"
    if f: "f < nextPromise a" and p: "profilePromises c f = Pending" for f
  proof -
    have fb: "f < nextPromise b" using f n(1) by simp
    then have pb: "profilePromises b f = Pending"
      and tb: "\<forall>t \<in> set (thens b). fst t = f \<longrightarrow> t \<in> set (thens c)"
      using assms(2) p by (auto simp: follows_def)
    have "profilePromises a f = Pending"
      and "\<forall>t \<in> set (thens a). fst t = f \<longrightarrow> t \<in> set (thens b)"
      using assms(1) f pb by (auto simp: follows_def)
    then show ?thesis using tb by blast
  qed
  moreover have "own_callbacks a \<longrightarrow> own_callbacks c" "fresh_ids a \<longrightarrow> fresh_ids c"
    using assms by (auto simp: follows_def)
  ultimately show ?thesis using n unfolding follows_def by (metis (no_types, lifting) order_trans)
qed

lemma follows_fold: "(\<And>x s. follows s (f x s)) \<Longrightarrow> follows s (fold f xs s)"
proof (induction xs arbitrary: s)
  case Nil
  show ?case by simp
next
  case (Cons x xs)
  have "follows s (f x s)" by (rule Cons.prems)
  moreover have "follows (f x s) (fold f xs (f x s))" using Cons.prems by (rule Cons.IH)
  ultimately show ?case using follows_trans by simp
qed

lemma follows_store: "follows s (store c k v s)"
  by (cases c) (auto simp: follows_defs store_def)

lemma follows_then: "follows s (cacheByIdOrEmail_then p c v s)"
  unfolding cacheByIdOrEmail_then_def Let_def
  using follows_store follows_trans by (metis (full_types))

lemma follows_thenCatch:
  "c \<noteq> ProfilesCache \<or> pp = v \<or> profilePromises s pp \<noteq> Pending \<Longrightarrow>
     follows s (thenCatch pp c v s)"
  by (auto simp: thenCatch_def follows_defs split: outcome.splits)

lemma follows_runCallback: "follows s (runCallback t s)"
  by (simp add: runCallback_def follows_then split: outcome.splits)

lemma follows_runMicrotask: "follows s (runMicrotask s)"
proof (cases "microtasks s")
  case Nil
  then show ?thesis by (simp add: runMicrotask_def)
next
  case (Cons t ts)
  have "follows s (s\<lparr>microtasks := ts\<rparr>)" by (simp add: follows_defs)
  moreover have "follows (s\<lparr>microtasks := ts\<rparr>) (runCallback t (s\<lparr>microtasks := ts\<rparr>))"
    by (rule follows_runCallback)
  ultimately show ?thesis using Cons follows_trans by (simp add: runMicrotask_def)
qed

lemma follows_settleProfile: "follows s (settleProfile f r s)"
proof -
  let ?s1 = "s\<lparr>profilePromises := (profilePromises s)(f := settled r),
                thens := filter (\<lambda>t. fst t \<noteq> f) (thens s)\<rparr>"
  have a: "follows s ?s1" by (simp add: follows_defs)
  have "follows ?s1 (fold (\<lambda>t. cacheByIdOrEmail_then p (fst (snd t)) (snd (snd t))) ts ?s1)" for p ts
    by (rule follows_fold) (rule follows_then)
  then show ?thesis
    using a follows_trans[OF a] by (auto simp: settleProfile_def Let_def split: sum.splits)
qed

lemma follows_field:
  "follows s (s\<lparr>deferred := df\<rparr>)" "follows s (s\<lparr>finishing := fi\<rparr>)"
  "follows s (s\<lparr>microtasks := m\<rparr>)"
  by (simp_all add: follows_defs)

lemma follows_continue: "follows s (continue s)"
proof (cases "deferred s")
  case Nil
  then show ?thesis by (simp add: continue_def)
next
  case (Cons c cs)
  have "follows s (s\<lparr>deferred := cs\<rparr>)" by (rule follows_field)
  moreover have "follows (s\<lparr>deferred := cs\<rparr>) (settleProfile (fst c) (snd c) (s\<lparr>deferred := cs\<rparr>))"
    by (rule follows_settleProfile)
  ultimately have "follows s (settleProfile (fst c) (snd c) (s\<lparr>deferred := cs\<rparr>))"
    by (rule follows_trans)
  then show ?thesis using Cons by (simp add: continue_def)
qed

lemma follows_drain: "follows s (drain s)"
proof -
  let ?s1 = "fold runCallback (microtasks s) (s\<lparr>microtasks := []\<rparr>)"
  have "follows s (s\<lparr>microtasks := []\<rparr>)" by (rule follows_field)
  moreover have "follows (s\<lparr>microtasks := []\<rparr>) ?s1"
    by (rule follows_fold) (rule follows_runCallback)
  ultimately have a: "follows s ?s1" by (rule follows_trans)
  have b: "follows ?s1 (?s1\<lparr>deferred := []\<rparr>)" by (rule follows_field)
  have "follows (?s1\<lparr>deferred := []\<rparr>)
          (fold (\<lambda>c. settleProfile (fst c) (snd c)) (deferred ?s1) (?s1\<lparr>deferred := []\<rparr>))"
    by (rule follows_fold) (rule follows_settleProfile)
  with a b show ?thesis unfolding drain_def Let_def using follows_trans by blast
qed

lemma follows_seedDirect: "follows s (seedDirect d s)"
proof -
  let ?s1 = "s\<lparr>nextPromise := nextPromise s + 2,
                profilePromises := (profilePromises s)(nextPromise s := Fulfilled d, nextPromise s + 1 := Fulfilled d)\<rparr>"
  have "follows s ?s1" by (fastforce simp: follows_defs)
  moreover have "follows ?s1 (thenCatch (nextPromise s) ProfilesCache (nextPromise s + 1) ?s1)"
    by (rule follows_thenCatch) simp
  ultimately show ?thesis
    unfolding seedDirect_def Let_def snd_cacheByIdOrEmail property.case by (rule follows_trans)
qed

lemma follows_settleDirects: "follows s (settleDirects f r s)"
proof -
  let ?s1 = "s\<lparr>directsPromises := (directsPromises s)(f := settled r)\<rparr>"
  have a: "follows s ?s1" by (simp add: follows_defs)
  have "follows ?s1 (fold seedDirect ds ?s1)" for ds
    by (rule follows_fold) (rule follows_seedDirect)
  then show ?thesis
    using a follows_trans[OF a] by (auto simp: settleDirects_def Let_def split: sum.splits)
qed

lemma follows_settlePhoto: "follows s (settlePhoto f r s)"
  by (simp add: settlePhoto_def follows_defs)

lemma follows_resume: "follows s (resume p r s)"
  by (simp add: resume_def Let_def follows_settleProfile follows_field split: option.splits)

lemma follows_onResolve: "follows s (onResolve p res s)"
proof -
  let ?s1 = "s\<lparr>batchPromises := (batchPromises s)(p := Fulfilled res)\<rparr>"
  have "follows s ?s1" by (simp add: follows_defs)
  moreover have "follows ?s1 (resume p (Inr res) ?s1)" by (rule follows_resume)
  ultimately show ?thesis using follows_trans by (auto simp: onResolve_def)
qed

lemma follows_onReject: "follows s (onReject p e s)"
proof -
  let ?s1 = "s\<lparr>batchPromises := (batchPromises s)(p := Rejected e)\<rparr>"
  have "follows s ?s1" by (simp add: follows_defs)
  moreover have "follows ?s1 (resume p (Inl e) ?s1)" by (rule follows_resume)
  ultimately show ?thesis using follows_trans by (auto simp: onReject_def)
qed

lemma follows_dispatch: "follows s (snd (dispatch rs pq s))"
proof (induction rs arbitrary: s)
  case Nil
  show ?case by simp
next
  case (Cons r rs)
  show ?case
  proof (cases "map_of pq (resp_id r)")
    case None
    then show ?thesis by simp
  next
    case (Some req)
    have "follows s (onResolve (req_promise req) r s)" by (rule follows_onResolve)
    then show ?thesis using Some Cons.IH follows_trans by auto
  qed
qed

lemma follows_rejectAll: "follows s (rejectAll e pq s)"
  unfolding rejectAll_def by (rule follows_fold) (auto simp: follows_onReject)

lemma follows_processBatch_rest: "follows s (processBatch_rest net b s)"
proof (cases net)
  case (AuthFailed e)
  then show ?thesis by (simp add: processBatch_rest_def follows_field split: option.splits)
next
  case (FetchFailed e)
  then show ?thesis by (simp add: processBatch_rest_def follows_rejectAll)
next
  case (Fetched response)
  have d: "follows s (snd (processResponse response (processingQueue b) s))"
    by (simp add: processResponse_def follows_dispatch split: sum.splits)
  obtain r s1 where p: "processResponse response (processingQueue b) s = (r, s1)"
    by (cases "processResponse response (processingQueue b) s")
  then have "follows s s1" using d by simp
  moreover have "follows s1 (rejectAll e (processingQueue b) s1)" for e by (rule follows_rejectAll)
  ultimately show ?thesis
    using Fetched p follows_trans by (auto simp: processBatch_rest_def split: sum.splits)
qed

lemma follows_batchDone: "follows s (batchDone i net s)"
proof -
  let ?s1 = "s\<lparr>inflight := take i (inflight s) @ drop (Suc i) (inflight s),
                finishing := awaitedBy (inflight s ! i)\<rparr>"
  let ?s2 = "processBatch_rest net (inflight s ! i) ?s1"
  have "follows s ?s1" by (simp add: follows_defs)
  moreover have "follows ?s1 ?s2" by (rule follows_processBatch_rest)
  moreover have "follows ?s2 (?s2\<lparr>finishing := None\<rparr>)" by (rule follows_field)
  ultimately have "follows s (?s2\<lparr>finishing := None\<rparr>)" using follows_trans by blast
  then show ?thesis by (simp add: batchDone_def)
qed

lemma follows_processBatch: "follows s (processBatch c s)"
  by (simp add: processBatch_def follows_defs)

lemma follows_resolveProfile: "follows s (snd (resolveProfile k s))"
proof (cases "getProperty (profilesCache s) k = Undefined")
  case False
  then show ?thesis by (simp add: resolveProfile_state)
next
  case True
  let ?s2 = "(snd (resolveProfileInternal k s))\<lparr>profilesCache := (profilesCache s)(k \<mapsto> nextPromise s)\<rparr>"
  have "follows s ?s2"
    by (fastforce simp: resolveProfileInternal_def enqueueRequest_def processBatch_def Let_def split_def
        follows_defs)
  moreover have "follows ?s2 (thenCatch (nextPromise s) ProfilesCache (nextPromise s) ?s2)"
    by (rule follows_thenCatch) simp
  ultimately show ?thesis using True follows_trans by (simp add: resolveProfile_state)
qed

lemma follows_getPhotoUrl: "follows s (snd (getPhotoUrl k s))"
proof (cases "getProperty (photosCache s) k = Undefined")
  case False
  then show ?thesis by (simp add: getPhotoUrl_state)
next
  case True
  let ?s2 = "(snd (getPhotoUrlInternal k s))\<lparr>photosCache := (photosCache s)(k \<mapsto> nextPromise s)\<rparr>"
  have a: "follows s ?s2"
    by (fastforce simp: getPhotoUrlInternal_def Let_def follows_defs)
  have "follows ?s2 (thenCatch pp PhotosCache (nextPromise s) ?s2)" for pp
    by (rule follows_thenCatch) simp
  then have "follows s (thenCatch pp PhotosCache (nextPromise s) ?s2)" for pp
    using a follows_trans by blast
  then show ?thesis using True a by (simp add: getPhotoUrl_state split: property.splits)
qed

lemma follows_getManager: "follows s (snd (getManager k s))"
proof (cases "getProperty (managersCache s) k = Undefined")
  case False
  then show ?thesis by (simp add: getManager_state)
next
  case True
  let ?s2 = "(snd (getManagerInternal k s))\<lparr>managersCache := (managersCache s)(k \<mapsto> nextPromise s)\<rparr>"
  have a: "follows s ?s2"
    by (fastforce simp: getManagerInternal_def Let_def follows_defs)
  have b: "follows ?s2 (thenCatch pp ManagersCache (nextPromise s) ?s2)" for pp
    by (rule follows_thenCatch) simp
  have c: "follows s' (thenCatch (nextPromise s) ProfilesCache (nextPromise s) s')" for s'
    by (rule follows_thenCatch) simp
  have "follows s (thenCatch (nextPromise s) ProfilesCache (nextPromise s) ?s2)"
    using a c follows_trans by blast
  moreover have "follows s (thenCatch (nextPromise s) ProfilesCache (nextPromise s)
                   (thenCatch pp ManagersCache (nextPromise s) ?s2))" for pp
    using a b c follows_trans by blast
  ultimately show ?thesis using True a by (simp add: getManager_state split: property.splits)
qed

lemma follows_getDirects: "follows s (snd (getDirects k s))"
proof (cases "getProperty (directsCache s) k = Undefined")
  case False
  then show ?thesis by (simp add: getDirects_state)
next
  case True
  let ?s2 = "(snd (getDirectsInternal k s))\<lparr>directsCache := (directsCache s)(k \<mapsto> nextPromise s)\<rparr>"
  have a: "follows s ?s2"
    by (fastforce simp: getDirectsInternal_def Let_def follows_defs)
  have b: "follows ?s2 (thenCatch pp DirectsCache (nextPromise s) ?s2)" for pp
    by (rule follows_thenCatch) simp
  have c: "follows s' (s'\<lparr>seeding := x\<rparr>)" for s' x
    by (simp add: follows_defs)
  have "follows s (?s2\<lparr>seeding := x\<rparr>)" for x
    using a c follows_trans by blast
  moreover have "follows s ((thenCatch pp DirectsCache (nextPromise s) ?s2)\<lparr>seeding := x\<rparr>)" for pp x
    using a b c follows_trans by blast
  ultimately show ?thesis
    using True a by (simp add: getDirects_state getDirectsInternal_def split: property.splits)
qed

lemma follows_done:
  "follows s (managerDone f m s)" "follows s (photoDone f p s)" "follows s (directsDone f d s)"
  by (simp_all add: managerDone_def photoDone_def directsDone_def follows_settleProfile follows_settlePhoto
      follows_settleDirects split: option.splits operation.splits)

lemma follows_step: "follows s (step ev s)"
proof (cases ev)
  case TimerFired
  then show ?thesis using follows_trans[OF follows_drain follows_processBatch] by simp
next
  case (BatchDone i net)
  then show ?thesis using follows_trans[OF follows_drain follows_batchDone] by simp
next
  case (ManagerDone f net)
  then show ?thesis using follows_trans[OF follows_drain follows_done(1)] by simp
next
  case (PhotoDone f net)
  then show ?thesis using follows_trans[OF follows_drain follows_done(2)] by simp
next
  case (DirectsDone f net)
  then show ?thesis using follows_trans[OF follows_drain follows_done(3)] by simp
qed (simp_all add: follows_resolveProfile follows_getPhotoUrl follows_getManager follows_getDirects
       follows_runMicrotask follows_continue)

lemma follows_run: "follows s (run evs s)"
  unfolding run_def by (rule follows_fold) (rule follows_step)

lemma registered_follows:
  "follows s s' \<Longrightarrow> registered f s \<Longrightarrow> profilePromises s' f = Pending \<Longrightarrow> registered f s'"
  by (fastforce simp: follows_def registered_def)

lemma own_callbacks_follows: "follows s s' \<Longrightarrow> own_callbacks s \<Longrightarrow> own_callbacks s'"
  by (simp add: follows_def)

lemma fresh_ids_follows: "follows s s' \<Longrightarrow> fresh_ids s \<Longrightarrow> fresh_ids s'"
  by (simp add: follows_def)

lemma fresh_ids_run: "fresh_ids (run evs initial)"
proof -
  have "fresh_ids initial" by (simp add: fresh_ids_def initial_def)
  then show ?thesis using follows_run fresh_ids_follows by blast
qed

lemma own_callbacks_run: "own_callbacks (run evs initial)"
proof -
  have "own_callbacks initial" by (simp add: own_callbacks_def initial_def)
  then show ?thesis using follows_run own_callbacks_follows by blast
qed

subsection \<open>Cross-indexing a resolved profile\<close>

lemma fold_then_profiles:
  assumes "hits p k" and "\<forall>t \<in> set ts. fst (snd t) = ProfilesCache \<longrightarrow> snd (snd t) = f"
  shows "profilesCache (fold (\<lambda>t. cacheByIdOrEmail_then p (fst (snd t)) (snd (snd t))) ts s) k =
           (if \<exists>t \<in> set ts. fst (snd t) = ProfilesCache then Some f else profilesCache s k)"
  using assms(2)
proof (induction ts arbitrary: s)
  case Nil
  show ?case by simp
next
  case (Cons t ts)
  then show ?case using assms(1) by auto
qed

lemma settleProfile_cross_indexes:
  assumes "registered f s" and "own_callbacks s" and "hits p k"
  shows "profilesCache (settleProfile f (Inr p) s) k = Some f"
proof -
  let ?ts = "filter (\<lambda>t. fst t = f) (thens s)"
  have own: "\<forall>t \<in> set ?ts. fst (snd t) = ProfilesCache \<longrightarrow> snd (snd t) = f"
    using assms(2) by (auto simp: own_callbacks_def list_all_iff)
  have ex: "\<exists>t \<in> set ?ts. fst (snd t) = ProfilesCache"
    using assms(1) by (force simp: registered_def)
  have "profilePromises s f = Pending" using assms(1) by (simp add: registered_def)
  then show ?thesis
    using fold_then_profiles[OF assms(3) own] ex by (simp add: settleProfile_def Let_def)
qed

lemma resolveProfile_registers:
  assumes "getProperty (profilesCache s) k = Undefined"
  shows "registered (nextPromise s) (snd (resolveProfile k s))"
  using assms
  by (simp add: resolveProfile_state resolveProfileInternal_def enqueueRequest_def processBatch_def
      thenCatch_def registered_def Let_def split_def)

text \<open>
  C4. Let \<^verbatim>\<open>resolveProfile\<close> return the promise \<^verbatim>\<open>f\<close> for a key without an entry, and let any events
  follow during which \<^verbatim>\<open>f\<close> stays pending. When \<^verbatim>\<open>f\<close> is then fulfilled with a profile, \<^verbatim>\<open>f\<close> is
  stored in the profile cache under the id of the profile and, when the profile has an
  email, under the email; \<^verbatim>\<open>resolveProfile\<close> by the id or by the email returns \<^verbatim>\<open>f\<close> and leaves
  the state as it is, so it starts no request; and after any later events
  \<^verbatim>\<open>resolveProfile\<close> by the id or the email still changes nothing. An email is present when
  the field holds a string that is not empty (the test is \<^verbatim>\<open>if (profile.email)\<close>). The
  condition \<^verbatim>\<open>own_callbacks\<close> on the starting state holds in every state the module can reach
  (\<^verbatim>\<open>own_callbacks_run\<close>). The promise is fulfilled by \<^verbatim>\<open>settleProfile\<close>, which is what the answer
  of a batch does for the request of \<^verbatim>\<open>f\<close> (\<^verbatim>\<open>onResolve\<close>, then \<^verbatim>\<open>resume\<close>; for the request that
  flushed the queue, \<^verbatim>\<open>continue\<close> or the start of the next task).
\<close>

theorem resolved_profile_is_cross_indexed:
  assumes "own_callbacks s" and "profilesCache s k = None"
    and "resolveProfile k s = (Inr (Promise f), s1)"
    and "profilePromises (run evs s1) f = Pending"
    and "s3 = settleProfile f (Inr p) (run evs s1)"
  shows "profilesCache s3 (key_of (profile_id p)) = Some f
       \<and> resolveProfile (key_of (profile_id p)) s3 = (Inr (Promise f), s3)
       \<and> snd (resolveProfile (key_of (profile_id p)) (run evs' s3)) = run evs' s3
       \<and> (truthy (email p) \<longrightarrow>
            profilesCache s3 (key_of (email p)) = Some f
            \<and> resolveProfile (key_of (email p)) s3 = (Inr (Promise f), s3)
            \<and> snd (resolveProfile (key_of (email p)) (run evs' s3)) = run evs' s3)"
proof -
  have miss: "getProperty (profilesCache s) k = Undefined" and f: "f = nextPromise s"
    using returned_promise_is_new(4)[OF assms(2), of f] assms(3) by simp_all
  have r1: "registered f s1"
    using resolveProfile_registers[OF miss] assms(3) f by simp
  have "follows s s1" using follows_step[of s "ResolveProfile k"] assms(3) by simp
  then have o1: "own_callbacks s1" using assms(1) by (rule own_callbacks_follows)
  have f12: "follows s1 (run evs s1)" by (rule follows_run)
  have r2: "registered f (run evs s1)" using f12 r1 assms(4) by (rule registered_follows)
  have o2: "own_callbacks (run evs s1)" using f12 o1 by (rule own_callbacks_follows)
  have stored: "profilesCache s3 k' = Some f" if "hits p k'" for k'
    unfolding assms(5) using r2 o2 that by (rule settleProfile_cross_indexes)
  have hit: "resolveProfile k' s3 = (Inr (Promise f), s3) \<and> snd (resolveProfile k' (run evs' s3)) = run evs' s3"
    if "hits p k'" for k'
  proof -
    have c: "cache ProfilesCache s3 k' = Some f" using stored[OF that] by (simp add: cache_def)
    then have "cache ProfilesCache s3 k' \<noteq> None" by simp
    from later_lookup[OF this, of evs'] lookup_hit[OF c] show ?thesis by (auto simp: lookup_def)
  qed
  have i: "hits p (key_of (profile_id p))" by (simp add: hits_def)
  have e: "truthy (email p) \<Longrightarrow> hits p (key_of (email p))" by (simp add: hits_def)
  show ?thesis using stored[OF i] hit[OF i] stored[OF e] hit[OF e] by blast
qed

text \<open>
  C4, witness: on the empty module the profile of \<^verbatim>\<open>id1\<close> is requested (promise 0) and the timer
  fires; the promise is fulfilled with the profile of \<^verbatim>\<open>id1\<close>, whose email is \<^verbatim>\<open>a@x\<close>. A lookup
  by \<^verbatim>\<open>a@x\<close> then returns promise 0, and the only fetcher ever started is the first. The answer
  of the batch is the event that fulfils the promise, with the same result.
\<close>

theorem resolved_profile_is_cross_indexed_witness:
  "own_callbacks initial \<and> profilesCache initial ''id1'' = None
   \<and> fst (resolveProfile ''id1'' initial) = Inr (Promise 0)
   \<and> profilePromises (run [TimerFired] (snd (resolveProfile ''id1'' initial))) 0 = Pending
   \<and> truthy (email (buildProfile (person ''id1'' (Some ''a@x''))))
   \<and> fst (resolveProfile ''a@x''
        (settleProfile 0 (Inr (buildProfile (person ''id1'' (Some ''a@x''))))
           (run [TimerFired] (snd (resolveProfile ''id1'' initial))))) = Inr (Promise 0)
   \<and> fst (resolveProfile ''a@x''
        (run [ResolveProfile ''id1'', TimerFired,
              BatchDone 0 (batchOk [found ''1'' (person ''id1'' (Some ''a@x''))])] initial)) = Inr (Promise 0)
   \<and> started (snd (resolveProfile ''a@x''
        (run [ResolveProfile ''id1'', TimerFired,
              BatchDone 0 (batchOk [found ''1'' (person ''id1'' (Some ''a@x''))])] initial)))
      = [(0, ResolveProfileInternal, ''id1'')]"
proof -
  let ?p = "buildProfile (person ''id1'' (Some ''a@x''))"
  let ?s1 = "snd (resolveProfile ''id1'' initial)"
  have a1: "own_callbacks initial" by (simp add: own_callbacks_def initial_def)
  have a2: "profilesCache initial ''id1'' = None" by (simp add: initial_def)
  have f0: "fst (resolveProfile ''id1'' initial) = Inr (Promise 0)" by (simp add: run_defs)
  then have a3: "resolveProfile ''id1'' initial = (Inr (Promise 0), ?s1)" by (metis prod.collapse)
  have a4: "profilePromises (run [TimerFired] ?s1) 0 = Pending" by (simp add: run_defs)
  have t: "truthy (email ?p)" by (simp add: truthy_def buildProfile_def person_def)
  have k: "key_of (email ?p) = ''a@x''" by (simp add: key_of_def buildProfile_def person_def)
  have "fst (resolveProfile ''a@x'' (settleProfile 0 (Inr ?p) (run [TimerFired] ?s1))) = Inr (Promise 0)"
    using resolved_profile_is_cross_indexed [OF a1 a2 a3 a4 refl, of ?p "[]"] t k by simp
  moreover have "fst (resolveProfile ''a@x''
        (run [ResolveProfile ''id1'', TimerFired,
              BatchDone 0 (batchOk [found ''1'' (person ''id1'' (Some ''a@x''))])] initial)) = Inr (Promise 0)
    \<and> started (snd (resolveProfile ''a@x''
        (run [ResolveProfile ''id1'', TimerFired,
              BatchDone 0 (batchOk [found ''1'' (person ''id1'' (Some ''a@x''))])] initial)))
      = [(0, ResolveProfileInternal, ''id1'')]"
    by (simp add: found_def run_defs)
  ultimately show ?thesis using a1 a2 f0 a4 t by blast
qed

subsection \<open>The requests of the batcher in every state the module can reach\<close>

lemma promises_simps [simp]:
  "promises [] = []"
  "promises (a # al) = req_promise (snd a) # promises al"
  "promises (xs @ ys) = promises xs @ promises ys"
  by (simp_all add: promises_def)

lemma batches_wf_frame:
  assumes "batches_wf s" and "queue s' = queue s" and "inflight s' = inflight s"
    and "batchPromises s' = batchPromises s" and "nextPromise s \<le> nextPromise s'"
  shows "batches_wf s'"
proof -
  have eq: "batch_promises s' = batch_promises s"
    using assms(2,3) by (simp add: batch_promises_def)
  have "p < nextPromise s' \<and> batchPromises s' p = Pending" if "p \<in> set (batch_promises s)" for p
  proof -
    have "p < nextPromise s \<and> batchPromises s p = Pending"
      using assms(1) that by (simp add: batches_wf_def list_all_iff)
    then show ?thesis using assms(4,5) by simp
  qed
  then show ?thesis
    using assms(1) eq by (simp add: batches_wf_def list_all_iff)
qed

lemma nextPromise_seedDirect: "nextPromise (seedDirect d s) = nextPromise s + 2"
  by (simp add: seedDirect_def Let_def snd_cacheByIdOrEmail)

lemma nextPromise_fold_seedDirect: "nextPromise s \<le> nextPromise (fold seedDirect ds s)"
proof (induction ds arbitrary: s)
  case Nil
  show ?case by simp
next
  case (Cons d ds)
  have "nextPromise s \<le> nextPromise (seedDirect d s)" by (simp add: nextPromise_seedDirect)
  also have "\<dots> \<le> nextPromise (fold seedDirect ds (seedDirect d s))" by (rule Cons.IH)
  finally show ?case by simp
qed

lemma nextPromise_settleDirects: "nextPromise s \<le> nextPromise (settleDirects f r s)"
proof (cases r)
  case (Inl e)
  then show ?thesis by (simp add: settleDirects_def Let_def)
next
  case (Inr ds)
  let ?s1 = "s\<lparr>directsPromises := (directsPromises s)(f := settled r)\<rparr>"
  have "nextPromise ?s1 \<le> nextPromise (fold seedDirect ds ?s1)" by (rule nextPromise_fold_seedDirect)
  then show ?thesis using Inr by (simp add: settleDirects_def Let_def)
qed

lemma batches_wf_settleProfile: "batches_wf s \<Longrightarrow> batches_wf (settleProfile f r s)"
  using batches_wf_frame[of s "settleProfile f r s"] by simp

lemma batches_wf_settlePhoto: "batches_wf s \<Longrightarrow> batches_wf (settlePhoto f r s)"
  using batches_wf_frame[of s "settlePhoto f r s"] by (simp add: settlePhoto_def)

lemma batches_wf_settleDirects: "batches_wf s \<Longrightarrow> batches_wf (settleDirects f r s)"
  using batches_wf_frame[of s "settleDirects f r s"] nextPromise_settleDirects[of s f r] by simp

lemma batches_wf_thenCatch: "batches_wf s \<Longrightarrow> batches_wf (thenCatch pp c v s)"
  using batches_wf_frame[of s "thenCatch pp c v s"] by simp

lemma batches_wf_runMicrotask: "batches_wf s \<Longrightarrow> batches_wf (runMicrotask s)"
  using batches_wf_frame[of s "runMicrotask s"] by simp

lemma batches_wf_drain: "batches_wf s \<Longrightarrow> batches_wf (drain s)"
  using batches_wf_frame[of s "drain s"] by simp

lemma batches_wf_continue: "batches_wf s \<Longrightarrow> batches_wf (continue s)"
  using batches_wf_frame[of s "continue s"] by simp

lemma batches_wf_processBatch:
  assumes "batches_wf s"
  shows "batches_wf (processBatch c s)"
proof (cases "queue s = []")
  case True
  then show ?thesis using assms by (simp add: processBatch_def)
next
  case False
  let ?s' = "s\<lparr>queue := [], inflight := inflight s @ [\<lparr>processingQueue = queue s, awaitedBy = c\<rparr>]\<rparr>"
  let ?old = "promises (concat (map processingQueue (inflight s)))"
  have bp: "batch_promises ?s' = ?old @ promises (queue s)"
    by (simp add: batch_promises_def)
  have bs: "batch_promises s = promises (queue s) @ ?old"
    by (simp add: batch_promises_def)
  have d: "distinct (batch_promises ?s')"
    using assms unfolding bp batches_wf_def bs by (simp add: Int_commute)
  have "set (batch_promises ?s') = set (batch_promises s)"
    unfolding bp bs by (simp add: Un_commute)
  then have "list_all (\<lambda>p. p < nextPromise ?s' \<and> batchPromises ?s' p = Pending) (batch_promises ?s')"
    using assms by (simp add: batches_wf_def list_all_iff)
  then have "batches_wf ?s'" using d by (simp add: batches_wf_def)
  then show ?thesis using False by (simp add: processBatch_def)
qed

lemma update_promises:
  "set (promises (AList.update k v al)) \<subseteq> insert (req_promise v) (set (promises al))"
proof (induction al)
  case Nil
  show ?case by simp
next
  case (Cons a al)
  show ?case
  proof (cases "fst a = k")
    case True
    then show ?thesis by (cases a) auto
  next
    case False
    then show ?thesis using Cons.IH by (cases a) auto
  qed
qed

lemma update_distinct:
  assumes "distinct (promises al)" and "req_promise v \<notin> set (promises al)"
  shows "distinct (promises (AList.update k v al))"
  using assms
proof (induction al)
  case Nil
  show ?case by simp
next
  case (Cons a al)
  show ?case
  proof (cases "fst a = k")
    case True
    then show ?thesis using Cons.prems by (cases a) auto
  next
    case False
    have "distinct (promises (AList.update k v al))"
      using Cons by simp
    moreover have "req_promise (snd a) \<notin> set (promises (AList.update k v al))"
      using update_promises[of k v al] Cons.prems by auto
    ultimately show ?thesis using False by (cases a) simp
  qed
qed

lemma batches_wf_enqueueRequest:
  assumes "batches_wf s"
  shows "batches_wf (snd (enqueueRequest url m s))"
proof -
  let ?p = "nextPromise s"
  let ?req = "\<lparr>req_id = string_of_nat (lastRequestId s + 1), req_url = url, req_method = m, req_promise = ?p\<rparr>"
  let ?q = "AList.update (string_of_nat (lastRequestId s + 1)) ?req (queue s)"
  let ?s1 = "s\<lparr>lastRequestId := lastRequestId s + 1, nextPromise := ?p + 1,
                batchPromises := (batchPromises s)(?p := Pending), queue := ?q\<rparr>"
  let ?old = "promises (concat (map processingQueue (inflight s)))"
  have old: "distinct (promises (queue s))" "distinct ?old"
    "set (promises (queue s)) \<inter> set ?old = {}"
    "\<forall>p \<in> set (promises (queue s)) \<union> set ?old. p < ?p \<and> batchPromises s p = Pending"
    using assms by (auto simp: batches_wf_def batch_promises_def list_all_iff)
  have fresh: "?p \<notin> set (promises (queue s))" "?p \<notin> set ?old"
    using old(4) by auto
  have sub: "set (promises ?q) \<subseteq> insert ?p (set (promises (queue s)))"
    using update_promises[of "string_of_nat (lastRequestId s + 1)" ?req "queue s"] by simp
  have dq: "distinct (promises ?q)"
    using update_distinct[OF old(1), of ?req] fresh(1) by simp
  have disj: "set (promises ?q) \<inter> set ?old = {}"
    using sub old(3) fresh(2) by blast
  have bp: "batch_promises ?s1 = promises ?q @ ?old"
    by (simp add: batch_promises_def)
  have d: "distinct (batch_promises ?s1)"
    unfolding bp using dq old(2) disj by simp
  have "p < nextPromise ?s1 \<and> batchPromises ?s1 p = Pending" if "p \<in> set (batch_promises ?s1)" for p
  proof -
    from that have "p = ?p \<or> p \<in> set (promises (queue s)) \<union> set ?old"
      unfolding bp using sub by auto
    then show ?thesis using old(4) by (fastforce simp: less_Suc_eq)
  qed
  then have w1: "batches_wf ?s1" using d by (simp add: batches_wf_def list_all_iff)
  have "snd (enqueueRequest url m s) = (if length ?q \<ge> 20 then processBatch (Some ?p) ?s1 else ?s1)"
    by (simp add: enqueueRequest_def Let_def)
  then show ?thesis using w1 batches_wf_processBatch[OF w1] by simp
qed

lemma batches_wf_resolveProfile:
  assumes "batches_wf s"
  shows "batches_wf (snd (resolveProfile k s))"
proof (cases "getProperty (profilesCache s) k = Undefined")
  case False
  then show ?thesis using assms by (simp add: resolveProfile_state)
next
  case True
  let ?f = "nextPromise s"
  let ?s1 = "s\<lparr>nextPromise := ?f + 1, profilePromises := (profilePromises s)(?f := Pending),
                started := started s @ [(?f, ResolveProfileInternal, k)]\<rparr>"
  let ?url = "''/users/'' @ k @ ''?$select='' @ profileFields"
  let ?e = "enqueueRequest ?url ''GET'' ?s1"
  let ?s2 = "(snd ?e)\<lparr>awaiting := (awaiting (snd ?e))(fst ?e \<mapsto> ?f)\<rparr>"
  let ?s3 = "?s2\<lparr>profilesCache := (profilesCache s)(k \<mapsto> ?f)\<rparr>"
  have "batches_wf ?s1" using batches_wf_frame[OF assms, of ?s1] by simp
  then have "batches_wf (snd ?e)" by (rule batches_wf_enqueueRequest)
  then have "batches_wf ?s3" using batches_wf_frame[of "snd ?e" ?s3] by simp
  then have "batches_wf (thenCatch ?f ProfilesCache ?f ?s3)"
    by (rule batches_wf_thenCatch)
  moreover have "snd (resolveProfile k s) = thenCatch ?f ProfilesCache ?f ?s3"
    using True by (simp add: resolveProfile_state resolveProfileInternal_def Let_def split_def)
  ultimately show ?thesis by simp
qed

lemma batches_wf_getPhotoUrl:
  assumes "batches_wf s"
  shows "batches_wf (snd (getPhotoUrl k s))"
  using batches_wf_frame[OF assms, of "snd (getPhotoUrl k s)"]
  by (simp add: getPhotoUrl_state getPhotoUrlInternal_def Let_def split: property.splits)

lemma batches_wf_getManager:
  assumes "batches_wf s"
  shows "batches_wf (snd (getManager k s))"
  using batches_wf_frame[OF assms, of "snd (getManager k s)"]
  by (simp add: getManager_state getManagerInternal_def Let_def split: property.splits)

lemma batches_wf_getDirects:
  assumes "batches_wf s"
  shows "batches_wf (snd (getDirects k s))"
  using batches_wf_frame[OF assms, of "snd (getDirects k s)"]
  by (simp add: getDirects_state getDirectsInternal_def Let_def split: property.splits)

lemma batches_frames [simp]:
  "queue (resume p r s) = queue s" "inflight (resume p r s) = inflight s"
  "nextPromise (resume p r s) = nextPromise s"
  "queue (onResolve p res s) = queue s" "inflight (onResolve p res s) = inflight s"
  "nextPromise (onResolve p res s) = nextPromise s"
  "queue (onReject p e s) = queue s" "inflight (onReject p e s) = inflight s"
  "nextPromise (onReject p e s) = nextPromise s"
  by (simp_all add: resume_def onResolve_def onReject_def Let_def split: option.splits)

lemma dispatch_frames [simp]:
  "queue (snd (dispatch rs pq s)) = queue s"
  "inflight (snd (dispatch rs pq s)) = inflight s"
  "nextPromise (snd (dispatch rs pq s)) = nextPromise s"
  by (induction rs arbitrary: s; simp split: option.splits)+

lemma rejectAll_frames [simp]:
  "queue (rejectAll e pq s) = queue s"
  "inflight (rejectAll e pq s) = inflight s"
  "nextPromise (rejectAll e pq s) = nextPromise s"
  unfolding rejectAll_def by (induction pq arbitrary: s; simp split: prod.splits)+

lemma dispatch_other_promises:
  "q \<notin> set (promises pq) \<Longrightarrow> batchPromises (snd (dispatch rs pq s)) q = batchPromises s q"
proof (induction rs arbitrary: s)
  case Nil
  show ?case by simp
next
  case (Cons r rs)
  show ?case
  proof (cases "map_of pq (resp_id r)")
    case None
    then show ?thesis by simp
  next
    case (Some req)
    then have "(resp_id r, req) \<in> set pq" by (rule map_of_SomeD)
    then have "req_promise req \<in> set (promises pq)" by (force simp: promises_def)
    then have "req_promise req \<noteq> q" using Cons.prems by auto
    then show ?thesis using Some Cons by (simp add: onResolve_promises)
  qed
qed

lemma processBatch_rest_frames [simp]:
  "queue (processBatch_rest net b s) = queue s"
  "inflight (processBatch_rest net b s) = inflight s"
  "nextPromise (processBatch_rest net b s) = nextPromise s"
proof -
  have "queue (processBatch_rest net b s) = queue s \<and> inflight (processBatch_rest net b s) = inflight s
        \<and> nextPromise (processBatch_rest net b s) = nextPromise s"
  proof (cases net)
    case (Fetched response)
    obtain r s1 where p: "processResponse response (processingQueue b) s = (r, s1)"
      by (cases "processResponse response (processingQueue b) s")
    have "queue (snd (processResponse response (processingQueue b) s)) = queue s
        \<and> inflight (snd (processResponse response (processingQueue b) s)) = inflight s
        \<and> nextPromise (snd (processResponse response (processingQueue b) s)) = nextPromise s"
      by (simp add: processResponse_def split: sum.splits)
    then have "queue s1 = queue s \<and> inflight s1 = inflight s \<and> nextPromise s1 = nextPromise s"
      using p by simp
    then show ?thesis using Fetched p by (simp add: processBatch_rest_def split: sum.splits)
  qed (simp_all add: processBatch_rest_def split: option.splits)
  then show "queue (processBatch_rest net b s) = queue s"
    "inflight (processBatch_rest net b s) = inflight s"
    "nextPromise (processBatch_rest net b s) = nextPromise s" by simp_all
qed

lemma processBatch_rest_other_promises:
  assumes "q \<notin> set (promises (processingQueue b))"
  shows "batchPromises (processBatch_rest net b s) q = batchPromises s q"
proof (cases net)
  case (AuthFailed e)
  then show ?thesis by (simp add: processBatch_rest_def split: option.splits)
next
  case (FetchFailed e)
  then show ?thesis using assms by (simp add: processBatch_rest_def rejectAll_promises promises_def)
next
  case (Fetched response)
  obtain r s1 where p: "processResponse response (processingQueue b) s = (r, s1)"
    by (cases "processResponse response (processingQueue b) s")
  have "batchPromises (snd (processResponse response (processingQueue b) s)) q = batchPromises s q"
    using assms by (simp add: processResponse_def dispatch_other_promises split: sum.splits)
  then have "batchPromises s1 q = batchPromises s q" using p by simp
  then show ?thesis
    using Fetched p assms by (simp add: processBatch_rest_def rejectAll_promises promises_def split: sum.splits)
qed

lemma batches_wf_batchDone:
  assumes "batches_wf s"
  shows "batches_wf (batchDone i net s)"
proof (cases "i < length (inflight s)")
  case False
  then show ?thesis using assms by (simp add: batchDone_def)
next
  case True
  let ?b = "inflight s ! i"
  let ?rest = "take i (inflight s) @ drop (Suc i) (inflight s)"
  let ?s1 = "s\<lparr>inflight := ?rest, finishing := awaitedBy ?b\<rparr>"
  let ?s2 = "processBatch_rest net ?b ?s1"
  have split: "inflight s = take i (inflight s) @ ?b # drop (Suc i) (inflight s)"
    using True by (rule id_take_nth_drop)
  have all: "promises (concat (map processingQueue (inflight s)))
      = promises (concat (map processingQueue (take i (inflight s)))) @ promises (processingQueue ?b)
        @ promises (concat (map processingQueue (drop (Suc i) (inflight s))))"
    by (subst split) simp
  have rest: "promises (concat (map processingQueue ?rest))
      = promises (concat (map processingQueue (take i (inflight s))))
        @ promises (concat (map processingQueue (drop (Suc i) (inflight s))))"
    by simp
  have d: "distinct (batch_promises s)" and
    pend: "\<forall>p \<in> set (batch_promises s). p < nextPromise s \<and> batchPromises s p = Pending"
    using assms by (simp_all add: batches_wf_def list_all_iff)
  have bs: "batch_promises s = promises (queue s) @ promises (concat (map processingQueue (inflight s)))"
    by (simp add: batch_promises_def)
  have b2: "batch_promises ?s2 = promises (queue s) @ promises (concat (map processingQueue ?rest))"
    by (simp add: batch_promises_def del: map_append concat_append)
  have d2: "distinct (batch_promises ?s2)"
    using d unfolding b2 bs all rest by auto
  have sub: "set (batch_promises ?s2) \<subseteq> set (batch_promises s)"
    unfolding b2 bs all rest by auto
  have disj: "set (batch_promises ?s2) \<inter> set (promises (processingQueue ?b)) = {}"
    using d unfolding b2 bs all rest by auto
  have "p < nextPromise ?s2 \<and> batchPromises ?s2 p = Pending" if "p \<in> set (batch_promises ?s2)" for p
  proof -
    have "p \<notin> set (promises (processingQueue ?b))" using that disj by auto
    then have "batchPromises ?s2 p = batchPromises ?s1 p" by (rule processBatch_rest_other_promises)
    moreover have "p < nextPromise s \<and> batchPromises s p = Pending" using that sub pend by auto
    ultimately show ?thesis by simp
  qed
  then have "batches_wf ?s2" using d2 by (simp add: batches_wf_def list_all_iff)
  then have "batches_wf (?s2\<lparr>finishing := None\<rparr>)"
    using batches_wf_frame[of ?s2 "?s2\<lparr>finishing := None\<rparr>"] by simp
  then show ?thesis using True by (simp add: batchDone_def)
qed

lemma batches_wf_step: "batches_wf s \<Longrightarrow> batches_wf (step ev s)"
  by (cases ev)
     (simp_all add: batches_wf_resolveProfile batches_wf_getPhotoUrl batches_wf_getManager
        batches_wf_getDirects batches_wf_processBatch batches_wf_batchDone batches_wf_runMicrotask
        batches_wf_drain batches_wf_continue
        managerDone_def photoDone_def directsDone_def batches_wf_settleProfile batches_wf_settlePhoto
        batches_wf_settleDirects split: option.splits operation.splits)

lemma batches_wf_run: "batches_wf (run evs initial)"
proof -
  have "batches_wf (fold step evs s)" if "batches_wf s" for s
    using that by (induction evs arbitrary: s) (simp_all add: batches_wf_step)
  moreover have "batches_wf initial" by (simp add: batches_wf_def batch_promises_def initial_def)
  ultimately show ?thesis by (simp add: run_def)
qed

text \<open>
  So every batch in flight in a state the module can reach meets the conditions of the two
  theorems on batches: its requests have promises of their own, and these are pending.
\<close>

lemma inflight_wf:
  assumes "i < length (inflight (run evs initial))"
  shows "promises_distinct (processingQueue (inflight (run evs initial) ! i))"
    and "list_all (\<lambda>e. batchPromises (run evs initial) (req_promise (snd e)) = Pending)
           (processingQueue (inflight (run evs initial) ! i))"
proof -
  let ?s = "run evs initial"
  let ?b = "inflight ?s ! i"
  have split: "inflight ?s = take i (inflight ?s) @ ?b # drop (Suc i) (inflight ?s)"
    using assms by (rule id_take_nth_drop)
  have all: "promises (concat (map processingQueue (inflight ?s)))
      = promises (concat (map processingQueue (take i (inflight ?s)))) @ promises (processingQueue ?b)
        @ promises (concat (map processingQueue (drop (Suc i) (inflight ?s))))"
    by (subst split) simp
  have w: "batches_wf ?s" by (rule batches_wf_run)
  then have "distinct (promises (processingQueue ?b))"
    unfolding batches_wf_def batch_promises_def all by simp
  then show "promises_distinct (processingQueue ?b)"
    by (simp add: promises_distinct_def promises_def)
  have "\<forall>p \<in> set (promises (processingQueue ?b)). batchPromises ?s p = Pending"
    using w unfolding batches_wf_def batch_promises_def all by (auto simp: list_all_iff)
  then show "list_all (\<lambda>e. batchPromises ?s (req_promise (snd e)) = Pending) (processingQueue ?b)"
    by (auto simp: list_all_iff promises_def)
qed

end
